theory Spec2Isabelle
  imports Main
begin

section \<open>Python strings\<close>

text \<open>
  A Python \<open>str\<close> is modelled as a \<^typ>\<open>string\<close>: a list of characters, each a code
  point in the range 0 to 255. This covers ASCII text, the other Latin-1 code points
  (non-ASCII text) and the null character.

  \<open>str.isspace\<close> holds, in that range, of the code points
  9 to 13, 28 to 32, 133 and 160.
\<close>

definition py_isspace :: "char \<Rightarrow> bool" where
  "py_isspace c = (let n = (of_char c :: nat) in
     (9 \<le> n \<and> n \<le> 13) \<or> (28 \<le> n \<and> n \<le> 32) \<or> n = 133 \<or> n = 160)"

text \<open>\<open>s.strip()\<close>: leading and trailing whitespace removed.\<close>

definition py_strip :: "string \<Rightarrow> string" where
  "py_strip s = rev (dropWhile py_isspace (rev (dropWhile py_isspace s)))"

text \<open>
  \<open>s.lower()\<close>: in the modelled range the upper-case letters are A to Z and the
  Latin-1 letters 192 to 222 except 215; each is 32 below its lower-case form.
\<close>

definition py_lower_char :: "char \<Rightarrow> char" where
  "py_lower_char c = (let n = (of_char c :: nat) in
     if (65 \<le> n \<and> n \<le> 90) \<or> (192 \<le> n \<and> n \<le> 222 \<and> n \<noteq> 215)
     then char_of (n + 32) else c)"

definition py_lower :: "string \<Rightarrow> string" where
  "py_lower s = map py_lower_char s"

text \<open>\<open>s.split(sep)\<close> for a one-character separator: always at least one field.\<close>

fun py_split :: "char \<Rightarrow> string \<Rightarrow> string list" where
  "py_split sep [] = [[]]"
| "py_split sep (c # cs) =
     (if c = sep then [] # py_split sep cs
      else (case py_split sep cs of
              [] \<Rightarrow> [[c]]
            | f # fs \<Rightarrow> (c # f) # fs))"

text \<open>\<open>s.startswith(p)\<close>, and \<open>s.startswith(ps)\<close> for a tuple of prefixes.\<close>

definition py_startswith :: "string \<Rightarrow> string \<Rightarrow> bool" where
  "py_startswith s p = (take (length p) s = p)"

definition py_startswith_any :: "string \<Rightarrow> string list \<Rightarrow> bool" where
  "py_startswith_any s ps = list_ex (py_startswith s) ps"

text \<open>
  \<open>s.replace(old, new)\<close>: every non-overlapping occurrence of \<open>old\<close>, scanning from
  the left. Both call sites pass a non-empty \<open>old\<close>; for an empty one this model
  returns \<open>s\<close>.
\<close>

function py_replace :: "string \<Rightarrow> string \<Rightarrow> string \<Rightarrow> string" where
  "py_replace old new s =
     (if s = [] then []
      else if old \<noteq> [] \<and> py_startswith s old
           then new @ py_replace old new (drop (length old) s)
      else hd s # py_replace old new (tl s))"
  by pat_completeness auto
termination
  by (relation "measure (\<lambda>(old, new, s). length s)") auto

declare py_replace.simps [simp del]

text \<open>\<open>s.count(c)\<close> for a one-character \<open>c\<close>.\<close>

definition py_count :: "string \<Rightarrow> char \<Rightarrow> nat" where
  "py_count s c = length (filter (\<lambda>x. x = c) s)"

section \<open>Exceptions\<close>

text \<open>
  The exceptions that the calls of \<open>utils.py\<close> can raise: \<open>AttributeError\<close> (the
  socket module lacks the function), \<open>socket.error\<close> (the text is not an address)
  and \<open>ValueError\<close> (the argument cannot be passed to the C library).
  A computation that may raise returns \<open>Inl\<close> of the exception.
\<close>

datatype py_exception = AttributeError | SocketError | ValueError

section \<open>The socket module\<close>

text \<open>
  \<open>utils.py\<close> calls \<open>socket.inet_pton\<close> and \<open>socket.inet_ntop\<close>, which hand the text
  and the packed address to the functions of the same names of the C library. They are
  modelled after the GNU C library: \<open>inet_pton4\<close> and \<open>inet_pton6\<close> are its two
  scanners, state for state, \<open>inet_ntop4\<close> and \<open>inet_ntop6\<close> its two printers. A packed
  address is a list of bytes, each a natural number below 256; no computation of the
  scanners can leave that range, since each value is compared with its bound before it
  is stored.
\<close>

subsection \<open>Decimal and hexadecimal text\<close>

definition digit_char :: "nat \<Rightarrow> char" where
  "digit_char d = (if d < 10 then char_of (48 + d) else char_of (87 + d))"

text \<open>\<open>%u\<close> and \<open>%x\<close> of \<open>sprintf\<close>.\<close>

fun fmt_u :: "nat \<Rightarrow> string" where
  "fmt_u n = (if n < 10 then [digit_char n] else fmt_u (n div 10) @ [digit_char (n mod 10)])"

fun fmt_x :: "nat \<Rightarrow> string" where
  "fmt_x n = (if n < 16 then [digit_char n] else fmt_x (n div 16) @ [digit_char (n mod 16)])"

declare fmt_u.simps [simp del] fmt_x.simps [simp del]

definition is_digit :: "char \<Rightarrow> bool" where
  "is_digit c = (48 \<le> (of_char c :: nat) \<and> (of_char c :: nat) \<le> 57)"

definition digit_value :: "char \<Rightarrow> nat" where
  "digit_value c = of_char c - 48"

text \<open>\<open>hex_digit_value\<close> of the C library: digits and the letters a to f in either case.\<close>

definition hex_digit_value :: "char \<Rightarrow> nat option" where
  "hex_digit_value c = (let n = (of_char c :: nat) in
     if 48 \<le> n \<and> n \<le> 57 then Some (n - 48)
     else if 97 \<le> n \<and> n \<le> 102 then Some (n - 87)
     else if 65 \<le> n \<and> n \<le> 70 then Some (n - 55)
     else None)"

subsection \<open>IPv4: \<open>inet_pton4\<close> and \<open>inet_ntop4\<close> of the C library\<close>

text \<open>
  The scanner reads the text once. \<open>saw_digit\<close> says whether the current octet has a
  digit, \<open>octets\<close> counts the octets begun, \<open>done\<close> holds the octets completed and
  \<open>cur\<close> the value of the octet being read (the cell \<open>*tp\<close>).
  It refuses a leading zero, a value above 255, a fifth octet, an empty octet,
  any other character, and fewer than four octets.
\<close>

fun inet_pton4_loop :: "string \<Rightarrow> bool \<Rightarrow> nat \<Rightarrow> nat list \<Rightarrow> nat \<Rightarrow> nat list option" where
  "inet_pton4_loop [] saw_digit octets done cur =
     (if octets < 4 then None else Some (done @ [cur]))"
| "inet_pton4_loop (ch # src) saw_digit octets done cur =
     (if is_digit ch then
        (let new = cur * 10 + digit_value ch in
         if saw_digit \<and> cur = 0 then None
         else if new > 255 then None
         else if \<not> saw_digit then
           (if octets + 1 > 4 then None
            else inet_pton4_loop src True (octets + 1) done new)
         else inet_pton4_loop src saw_digit octets done new)
      else if ch = CHR ''.'' \<and> saw_digit then
        (if octets = 4 then None
         else inet_pton4_loop src False octets (done @ [cur]) 0)
      else None)"

definition inet_pton4 :: "string \<Rightarrow> nat list option" where
  "inet_pton4 src = inet_pton4_loop src False 0 [] 0"

text \<open>\<open>sprintf "%u.%u.%u.%u"\<close> of the four bytes.\<close>

definition inet_ntop4 :: "nat list \<Rightarrow> string" where
  "inet_ntop4 b = fmt_u (b ! 0) @ ''.'' @ fmt_u (b ! 1) @ ''.'' @ fmt_u (b ! 2) @ ''.'' @ fmt_u (b ! 3)"

subsection \<open>IPv6: \<open>inet_pton6\<close> and \<open>inet_ntop6\<close> of the C library\<close>

text \<open>The two bytes of a 16-bit group, high byte first.\<close>

definition word_bytes :: "nat \<Rightarrow> nat list" where
  "word_bytes val = [(val div 256) mod 256, val mod 256]"

text \<open>
  The end of the scan: a pending group is stored, then the zeros that \<open>::\<close> stands
  for are inserted at \<open>colonp\<close> (the bytes written after it move to the end of the
  buffer). \<open>tp\<close> is the list of the bytes written so far, so the pointer test
  \<open>tp + 2 > endp\<close> reads \<open>length tp + 2 > 16\<close>.
\<close>

definition inet_pton6_finish :: "nat list \<Rightarrow> nat option \<Rightarrow> nat \<Rightarrow> nat \<Rightarrow> nat list option" where
  "inet_pton6_finish tp colonp xdigits_seen val =
     (if xdigits_seen > 0 \<and> length tp + 2 > 16 then None
      else
        (let tp1 = (if xdigits_seen > 0 then tp @ word_bytes val else tp) in
         case colonp of
           Some c \<Rightarrow>
             (if length tp1 = 16 then None
              else Some (take c tp1 @ replicate (16 - length tp1) 0 @ drop c tp1))
         | None \<Rightarrow> (if length tp1 \<noteq> 16 then None else Some tp1)))"

text \<open>
  The main loop. \<open>curtok\<close> is the text from the start of the current group on (it is
  what \<open>inet_pton4\<close> reads when a dot is met), \<open>colonp\<close> the position of \<open>::\<close> in the
  buffer once seen.
\<close>

fun inet_pton6_loop ::
  "string \<Rightarrow> string \<Rightarrow> nat list \<Rightarrow> nat option \<Rightarrow> nat \<Rightarrow> nat \<Rightarrow> nat list option" where
  "inet_pton6_loop [] curtok tp colonp xdigits_seen val =
     inet_pton6_finish tp colonp xdigits_seen val"
| "inet_pton6_loop (ch # src) curtok tp colonp xdigits_seen val =
     (case hex_digit_value ch of
        Some digit \<Rightarrow>
          (if xdigits_seen = 4 then None
           else (let val1 = val * 16 + digit in
                 if val1 > 65535 then None
                 else inet_pton6_loop src curtok tp colonp (xdigits_seen + 1) val1))
      | None \<Rightarrow>
          (if ch = CHR '':'' then
             (if xdigits_seen = 0 then
                (if colonp \<noteq> None then None
                 else inet_pton6_loop src src tp (Some (length tp)) xdigits_seen val)
              else if src = [] then None
              else if length tp + 2 > 16 then None
              else inet_pton6_loop src src (tp @ word_bytes val) colonp 0 0)
           else if ch = CHR ''.'' \<and> length tp + 4 \<le> 16 then
             (case inet_pton4 curtok of
                Some b \<Rightarrow> inet_pton6_finish (tp @ b) colonp 0 val
              | None \<Rightarrow> None)
           else None))"

text \<open>A leading colon must be the first of two.\<close>

definition inet_pton6 :: "string \<Rightarrow> nat list option" where
  "inet_pton6 src =
     (case src of
        [] \<Rightarrow> None
      | ch # rest \<Rightarrow>
          (if ch = CHR '':'' then
             (case rest of
                [] \<Rightarrow> None
              | ch2 # _ \<Rightarrow>
                  (if ch2 \<noteq> CHR '':'' then None
                   else inet_pton6_loop rest rest [] None 0 0))
           else inet_pton6_loop src src [] None 0 0))"

text \<open>The eight 16-bit groups of the sixteen bytes.\<close>

fun to_words :: "nat list \<Rightarrow> nat list" where
  "to_words (hi # lo # bs) = (hi * 256 + lo) # to_words bs"
| "to_words bs = []"

text \<open>
  The longest run of zero groups, the first of them among equals,
  as a pair of its start and its length; \<open>None\<close> stands for \<open>base = -1\<close>.
\<close>

definition better_run :: "(nat \<times> nat) option \<Rightarrow> nat \<times> nat \<Rightarrow> (nat \<times> nat) option" where
  "better_run best cur =
     (case best of
        None \<Rightarrow> Some cur
      | Some b \<Rightarrow> (if snd cur > snd b then Some cur else Some b))"

fun find_run ::
  "nat list \<Rightarrow> nat \<Rightarrow> (nat \<times> nat) option \<Rightarrow> (nat \<times> nat) option \<Rightarrow> (nat \<times> nat) option" where
  "find_run [] i best cur =
     (case cur of None \<Rightarrow> best | Some c \<Rightarrow> better_run best c)"
| "find_run (w # ws) i best cur =
     (if w = 0 then
        (case cur of
           None \<Rightarrow> find_run ws (i + 1) best (Some (i, 1))
         | Some (b, l) \<Rightarrow> find_run ws (i + 1) best (Some (b, l + 1)))
      else
        (case cur of
           None \<Rightarrow> find_run ws (i + 1) best None
         | Some c \<Rightarrow> find_run ws (i + 1) (better_run best c) None))"

definition best_run :: "nat list \<Rightarrow> (nat \<times> nat) option" where
  "best_run words =
     (case find_run words 0 None None of
        None \<Rightarrow> None
      | Some (b, l) \<Rightarrow> (if l < 2 then None else Some (b, l)))"

definition in_best :: "(nat \<times> nat) option \<Rightarrow> nat \<Rightarrow> bool" where
  "in_best best i = (case best of None \<Rightarrow> False | Some (b, l) \<Rightarrow> b \<le> i \<and> i < b + l)"

definition is_encapsulated :: "nat list \<Rightarrow> (nat \<times> nat) option \<Rightarrow> bool" where
  "is_encapsulated words best =
     (case best of
        None \<Rightarrow> False
      | Some (b, l) \<Rightarrow> b = 0 \<and> (l = 6 \<or> (l = 5 \<and> words ! 5 = 65535)))"

text \<open>
  The formatting loop over the groups from index \<open>i\<close> on; \<open>tp\<close> is the text written
  so far. At group 6 of an encapsulated IPv4 address the last four bytes are written
  in dotted form and the loop ends.
\<close>

fun inet_ntop6_loop ::
  "nat list \<Rightarrow> nat list \<Rightarrow> (nat \<times> nat) option \<Rightarrow> nat \<Rightarrow> nat list \<Rightarrow> string \<Rightarrow> string" where
  "inet_ntop6_loop src words best i [] tp = tp"
| "inet_ntop6_loop src words best i (w # ws) tp =
     (if in_best best i then
        inet_ntop6_loop src words best (i + 1) ws
          (if Some i = map_option fst best then tp @ '':'' else tp)
      else
        (let tp1 = (if i \<noteq> 0 then tp @ '':'' else tp) in
         if i = 6 \<and> is_encapsulated words best then tp1 @ inet_ntop4 (drop 12 src)
         else inet_ntop6_loop src words best (i + 1) ws (tp1 @ fmt_x w)))"

definition inet_ntop6 :: "nat list \<Rightarrow> string" where
  "inet_ntop6 src =
     (let words = to_words src;
          best = best_run words;
          tp = inet_ntop6_loop src words best 0 words []
      in case best of
           None \<Rightarrow> tp
         | Some (b, l) \<Rightarrow> (if b + l = 8 then tp @ '':'' else tp))"

subsection \<open>The Python functions\<close>

datatype family = AF_INET | AF_INET6

text \<open>
  \<open>socket.inet_pton(af, s)\<close> passes the text to the C library as a null-terminated
  string: a text with an embedded null character is refused with \<open>ValueError\<close>
  before any parsing; a text that the C function rejects raises \<open>socket.error\<close>.
  A character above 127 is sent as bytes above 127, which no address contains,
  so the C functions reject it as they do here.
\<close>

definition socket_inet_pton :: "family \<Rightarrow> string \<Rightarrow> py_exception + nat list" where
  "socket_inet_pton af s =
     (if CHR 0x00 \<in> set s then Inl ValueError
      else case (case af of AF_INET \<Rightarrow> inet_pton4 s | AF_INET6 \<Rightarrow> inet_pton6 s) of
             None \<Rightarrow> Inl SocketError
           | Some packed \<Rightarrow> Inr packed)"

text \<open>\<open>socket.inet_ntop(af, packed)\<close> refuses a packed address of the wrong length.\<close>

definition socket_inet_ntop :: "family \<Rightarrow> nat list \<Rightarrow> py_exception + string" where
  "socket_inet_ntop af packed =
     (case af of
        AF_INET \<Rightarrow> (if length packed \<noteq> 4 then Inl ValueError else Inr (inet_ntop4 packed))
      | AF_INET6 \<Rightarrow> (if length packed \<noteq> 16 then Inl ValueError else Inr (inet_ntop6 packed)))"

section \<open>Configuration and the legacy socket functions\<close>

text \<open>
  \<open>defaults.py\<close> holds the two prefix tables, each a tuple of strings; they are taken
  as a parameter of the functions that read them.
\<close>

record defaults =
  IPWARE_NON_PUBLIC_IP_PREFIX :: "string list"
  IPWARE_LOOPBACK_PREFIX :: "string list"

text \<open>
  \<open>socket.inet_aton\<close> and \<open>socket.inet_ntoa\<close> are called only in the handlers of
  \<open>AttributeError\<close>, that is, when the socket module has no \<open>inet_pton\<close>. The socket
  module modelled above has it, so no result depends on them; they are a parameter.
\<close>

record legacy_socket =
  inet_aton :: "string \<Rightarrow> py_exception + nat list"
  inet_ntoa :: "nat list \<Rightarrow> py_exception + string"

section \<open>\<open>ipware/utils.py\<close>\<close>

text \<open>The nested call \<open>socket.inet_ntop(af, socket.inet_pton(af, ip))\<close>.\<close>

definition ntop_of_pton :: "family \<Rightarrow> string \<Rightarrow> py_exception + string" where
  "ntop_of_pton af ip =
     (case socket_inet_pton af ip of
        Inl e \<Rightarrow> Inl e
      | Inr packed \<Rightarrow> socket_inet_ntop af packed)"

text \<open>The nested call \<open>socket.inet_ntoa(socket.inet_aton(ip))\<close>.\<close>

definition ntoa_of_aton :: "legacy_socket \<Rightarrow> string \<Rightarrow> py_exception + string" where
  "ntoa_of_aton sock ip =
     (case inet_aton sock ip of
        Inl e \<Rightarrow> Inl e
      | Inr packed \<Rightarrow> inet_ntoa sock packed)"

text \<open>
  The first \<open>try\<close> statement of \<open>cleanup_ip\<close>; its value is \<open>clean_ip\<close> afterwards.
  An exception raised inside the handler of \<open>AttributeError\<close>, other than
  \<open>AttributeError\<close>, is not caught by the handlers of the same statement.
\<close>

definition cleanup_ip_v4 :: "legacy_socket \<Rightarrow> string \<Rightarrow> py_exception + string option" where
  "cleanup_ip_v4 sock ip =
     (case ntop_of_pton AF_INET ip of
        Inr clean_ip \<Rightarrow> Inr (Some clean_ip)
      | Inl AttributeError \<Rightarrow>
          (case ntoa_of_aton sock ip of
             Inr clean_ip \<Rightarrow> Inr (Some clean_ip)
           | Inl AttributeError \<Rightarrow> Inr None
           | Inl e \<Rightarrow> Inl e)
      | Inl SocketError \<Rightarrow> Inr None
      | Inl e \<Rightarrow> Inl e)"

text \<open>\<open>not clean_ip\<close> and \<open>clean_ip or ip\<close>: \<open>None\<close> and the empty string are false.\<close>

definition py_not :: "string option \<Rightarrow> bool" where
  "py_not clean_ip = (clean_ip = None \<or> clean_ip = Some [])"

definition py_or :: "string option \<Rightarrow> string \<Rightarrow> string" where
  "py_or clean_ip ip = (case clean_ip of None \<Rightarrow> ip | Some c \<Rightarrow> (if c = [] then ip else c))"

definition cleanup_ip :: "legacy_socket \<Rightarrow> string \<Rightarrow> py_exception + string" where
  "cleanup_ip sock ip0 =
     (let ip = py_strip ip0 in
      case cleanup_ip_v4 sock ip of
        Inl e \<Rightarrow> Inl e
      | Inr clean_ip \<Rightarrow>
          (if py_not clean_ip then
             (case ntop_of_pton AF_INET6 ip of
                Inr clean_ip6 \<Rightarrow>
                  (if py_startswith clean_ip6 ''::ffff:''
                   then Inr (py_replace ''::ffff:'' [] clean_ip6)
                   else Inr (py_or (Some clean_ip6) ip))
              | Inl SocketError \<Rightarrow> Inr (py_or clean_ip ip)
              | Inl e \<Rightarrow> Inl e)
           else Inr (py_or clean_ip ip)))"

definition is_valid_ipv4 :: "legacy_socket \<Rightarrow> string \<Rightarrow> py_exception + bool" where
  "is_valid_ipv4 sock ip_str =
     (case socket_inet_pton AF_INET ip_str of
        Inr packed \<Rightarrow> Inr True
      | Inl AttributeError \<Rightarrow>
          (case inet_aton sock ip_str of
             Inr packed \<Rightarrow> Inr (py_count ip_str CHR ''.'' = 3)
           | Inl AttributeError \<Rightarrow> Inr False
           | Inl SocketError \<Rightarrow> Inr False
           | Inl e \<Rightarrow> Inl e)
      | Inl SocketError \<Rightarrow> Inr False
      | Inl e \<Rightarrow> Inl e)"

definition is_valid_ipv6 :: "string \<Rightarrow> py_exception + bool" where
  "is_valid_ipv6 ip_str =
     (case socket_inet_pton AF_INET6 ip_str of
        Inr packed \<Rightarrow> Inr True
      | Inl SocketError \<Rightarrow> Inr False
      | Inl e \<Rightarrow> Inl e)"

text \<open>\<open>or\<close> evaluates its right operand only when the left one is false.\<close>

definition is_valid_ip :: "legacy_socket \<Rightarrow> string \<Rightarrow> py_exception + bool" where
  "is_valid_ip sock ip_str =
     (case is_valid_ipv4 sock ip_str of
        Inl e \<Rightarrow> Inl e
      | Inr True \<Rightarrow> Inr True
      | Inr False \<Rightarrow> is_valid_ipv6 ip_str)"

definition is_private_ip :: "defaults \<Rightarrow> string \<Rightarrow> bool" where
  "is_private_ip defs ip_str = py_startswith_any ip_str (IPWARE_NON_PUBLIC_IP_PREFIX defs)"

definition is_public_ip :: "defaults \<Rightarrow> string \<Rightarrow> bool" where
  "is_public_ip defs ip_str = (\<not> is_private_ip defs ip_str)"

definition is_loopback_ip :: "defaults \<Rightarrow> string \<Rightarrow> bool" where
  "is_loopback_ip defs ip_str = py_startswith_any ip_str (IPWARE_LOOPBACK_PREFIX defs)"

text \<open>
  \<open>request.META\<close> is a dictionary from strings to strings. The default of the outer
  \<open>get\<close> is the result of the inner one.
\<close>

definition get_request_meta :: "(string \<rightharpoonup> string) \<Rightarrow> string \<Rightarrow> string option" where
  "get_request_meta META key =
     (let dflt = (case META (py_replace ''_'' ''-'' key) of Some v \<Rightarrow> v | None \<Rightarrow> []);
          value = py_strip (case META key of Some v \<Rightarrow> v | None \<Rightarrow> dflt)
      in if value = [] then None else Some value)"

text \<open>The loop of \<open>get_ips_from_string\<close> over the fields, appending to \<open>ip_list\<close>.\<close>

fun collect_ips :: "string list \<Rightarrow> string list \<Rightarrow> string list" where
  "collect_ips [] ip_list = ip_list"
| "collect_ips (ip # rest) ip_list =
     (let clean_ip = py_lower (py_strip ip) in
      if clean_ip \<noteq> [] then collect_ips rest (ip_list @ [clean_ip])
      else collect_ips rest ip_list)"

text \<open>
  \<open>ip_list[0]\<close> and \<open>ip_list[-1]\<close> are read only when the list is not empty,
  the second only when the first is valid.
\<close>

definition get_ips_from_string ::
  "legacy_socket \<Rightarrow> string \<Rightarrow> py_exception + (string list \<times> nat)" where
  "get_ips_from_string sock ip_str =
     (let ip_list = collect_ips (py_split CHR '','' ip_str) [];
          ip_count = length ip_list
      in if ip_count > 0 then
           (case is_valid_ip sock (hd ip_list) of
              Inl e \<Rightarrow> Inl e
            | Inr False \<Rightarrow> Inr ([], 0)
            | Inr True \<Rightarrow>
                (case is_valid_ip sock (last ip_list) of
                   Inl e \<Rightarrow> Inl e
                 | Inr False \<Rightarrow> Inr ([], 0)
                 | Inr True \<Rightarrow> Inr (ip_list, ip_count)))
         else Inr ([], 0))"

definition get_ip_info ::
  "defaults \<Rightarrow> legacy_socket \<Rightarrow> string \<Rightarrow> py_exception + (string option \<times> bool)" where
  "get_ip_info defs sock ip_str =
     (case cleanup_ip sock ip_str of
        Inl e \<Rightarrow> Inl e
      | Inr clean_ip \<Rightarrow>
          (case is_valid_ip sock clean_ip of
             Inl e \<Rightarrow> Inl e
           | Inr True \<Rightarrow> Inr (Some clean_ip, is_public_ip defs clean_ip)
           | Inr False \<Rightarrow> Inr (None, False)))"

text \<open>\<open>last_ip\<close> is \<open>None\<close> or a string; \<open>next_ip\<close> is a string.\<close>

definition get_best_ip ::
  "defaults \<Rightarrow> legacy_socket \<Rightarrow> string option \<Rightarrow> string \<Rightarrow> py_exception + string" where
  "get_best_ip defs sock last_ip_opt next_ip =
     (case last_ip_opt of
        None \<Rightarrow> Inr next_ip
      | Some last_ip \<Rightarrow>
          (case cleanup_ip sock last_ip of
             Inl e \<Rightarrow> Inl e
           | Inr clean_last_ip \<Rightarrow>
               (case cleanup_ip sock next_ip of
                  Inl e \<Rightarrow> Inl e
                | Inr clean_next_ip \<Rightarrow>
                    (if is_public_ip defs clean_last_ip \<and> \<not> is_public_ip defs clean_next_ip
                     then Inr last_ip
                     else if is_private_ip defs clean_last_ip \<and> is_loopback_ip defs clean_next_ip
                     then Inr last_ip
                     else Inr next_ip))))"

section \<open>Auxiliary notions for the proofs\<close>

text \<open>The dotted-decimal text of a list of bytes.\<close>

fun dotted :: "nat list \<Rightarrow> string" where
  "dotted [] = []"
| "dotted [x] = fmt_u x"
| "dotted (x # y # ys) = fmt_u x @ ''.'' @ dotted (y # ys)"

text \<open>The text that \<open>inet_pton4_loop\<close> has read when it is in a given state.\<close>

definition read4 :: "nat list \<Rightarrow> bool \<Rightarrow> nat \<Rightarrow> string" where
  "read4 done saw cur = concat (map (\<lambda>b. fmt_u b @ ''.'') done) @ (if saw then fmt_u cur else [])"

text \<open>Hexadecimal groups, each after a colon; and groups separated by colons.\<close>

definition colon_groups :: "nat list \<Rightarrow> string" where
  "colon_groups ws = concat (map (\<lambda>w. '':'' @ fmt_x w) ws)"

definition join_groups :: "nat list \<Rightarrow> string" where
  "join_groups ws = (case ws of [] \<Rightarrow> [] | w # ws' \<Rightarrow> fmt_x w @ colon_groups ws')"

text \<open>The bytes of a list of 16-bit groups.\<close>

definition bytes_of :: "nat list \<Rightarrow> nat list" where
  "bytes_of ws = concat (map word_bytes ws)"

text \<open>A run lies inside the list of groups and covers zeros only.\<close>

definition zero_run :: "nat list \<Rightarrow> (nat \<times> nat) option \<Rightarrow> bool" where
  "zero_run ws r = (case r of None \<Rightarrow> True
     | Some (b, l) \<Rightarrow> b + l \<le> length ws \<and> (\<forall>j<l. ws ! (b + j) = 0))"

text \<open>The value that \<open>inet_pton6_loop\<close> accumulates while it reads decimal text as hexadecimal.\<close>

fun hex_of_dec :: "nat \<Rightarrow> nat" where
  "hex_of_dec n = (if n < 10 then n else hex_of_dec (n div 10) * 16 + n mod 10)"

declare hex_of_dec.simps [simp del]

text \<open>The characters of the printed forms: hexadecimal digits, colons and dots.\<close>

definition hex_char :: "char \<Rightarrow> bool" where
  "hex_char c = (\<exists>d<16. c = digit_char d)"

definition addr_char :: "char \<Rightarrow> bool" where
  "addr_char c = (hex_char c \<or> c = CHR '':'' \<or> c = CHR ''.'')"

text \<open>A packed address: \<open>n\<close> bytes.\<close>

definition valid_packed :: "nat \<Rightarrow> nat list \<Rightarrow> bool" where
  "valid_packed n b = (length b = n \<and> list_all (\<lambda>x. x < 256) b)"

text \<open>
  What \<open>cleanup_ip\<close> makes of the canonical IPv6 text \<open>c\<close>: the test \<open>startswith\<close> and
  the call of \<open>replace\<close> of its second \<open>try\<close> statement.
\<close>

definition unmapped :: "string \<Rightarrow> string" where
  "unmapped c = (if py_startswith c ''::ffff:'' then py_replace ''::ffff:'' [] c else c)"

section \<open>A sample configuration, and the functions in the words of the spec\<close>

text \<open>
  A configuration for the examples: \<open>10.\<close> is a non-public prefix, \<open>127.\<close> a loopback
  prefix, which is non-public too.
\<close>

definition sample_defaults :: defaults where
  "sample_defaults =
     \<lparr>IPWARE_NON_PUBLIC_IP_PREFIX = [''10.'', ''127.''], IPWARE_LOOPBACK_PREFIX = [''127.'']\<rparr>"

text \<open>A socket module whose legacy functions are missing as well.\<close>

definition sample_legacy :: legacy_socket where
  "sample_legacy = \<lparr>inet_aton = (\<lambda>ip. Inl AttributeError), inet_ntoa = (\<lambda>packed. Inl AttributeError)\<rparr>"

text \<open>The spec's words for \<open>get_request_meta\<close>.\<close>

definition hyphenated :: "string \<Rightarrow> string" where
  "hyphenated key = map (\<lambda>c. if c = CHR ''_'' then CHR ''-'' else c) key"

definition found_value :: "(string \<rightharpoonup> string) \<Rightarrow> string \<Rightarrow> string" where
  "found_value META key =
     (case META key of
        Some v \<Rightarrow> v
      | None \<Rightarrow> (case META (hyphenated key) of Some v \<Rightarrow> v | None \<Rightarrow> []))"

definition get_request_meta_spec :: "(string \<rightharpoonup> string) \<Rightarrow> string \<Rightarrow> string option" where
  "get_request_meta_spec META key =
     (let trimmed = py_strip (found_value META key)
      in if trimmed = [] then None else Some trimmed)"

text \<open>The spec's words for \<open>cleanup_ip\<close>.\<close>

definition cleanup_ip_spec :: "string \<Rightarrow> string" where
  "cleanup_ip_spec s =
     (let trimmed = py_strip s in
      case inet_pton4 trimmed of
        Some b \<Rightarrow> inet_ntop4 b
      | None \<Rightarrow>
          (case inet_pton6 trimmed of
             Some b \<Rightarrow>
               (let canonical = inet_ntop6 b in
                if py_startswith canonical ''::ffff:'' then drop 7 canonical else canonical)
           | None \<Rightarrow> trimmed))"

text \<open>General validity, in the spec's words: either parse succeeds.\<close>

definition parses_as_ip :: "string \<Rightarrow> bool" where
  "parses_as_ip s =
     (case inet_pton4 s of
        Some b \<Rightarrow> True
      | None \<Rightarrow> (case inet_pton6 s of Some b \<Rightarrow> True | None \<Rightarrow> False))"

text \<open>The spec's words for the list of candidates of \<open>get_ips_from_string\<close>.\<close>

definition tokens :: "string \<Rightarrow> string list" where
  "tokens ip_str =
     filter (\<lambda>t. t \<noteq> []) (map (\<lambda>t. py_lower (py_strip t)) (py_split CHR '','' ip_str))"

text \<open>The policy of \<open>get_best_ip\<close> on the two normalized candidates.\<close>

definition keep_last :: "defaults \<Rightarrow> string \<Rightarrow> string \<Rightarrow> bool" where
  "keep_last defs clean_last_ip clean_next_ip =
     ((is_public_ip defs clean_last_ip \<and> \<not> is_public_ip defs clean_next_ip) \<or>
      (is_private_ip defs clean_last_ip \<and> is_loopback_ip defs clean_next_ip))"

section \<open>Properties\<close>

subsection \<open>Digits\<close>

lemma digit_char_hex [simp]: "d < 16 \<Longrightarrow> hex_digit_value (digit_char d) = Some d"
  by (simp add: hex_digit_value_def digit_char_def Let_def)

lemma digit_char_is_digit [simp]: "d < 10 \<Longrightarrow> is_digit (digit_char d)"
  by (simp add: is_digit_def digit_char_def)

lemma digit_char_value [simp]: "d < 10 \<Longrightarrow> digit_value (digit_char d) = d"
  by (simp add: digit_value_def digit_char_def)

lemma digit_value_char: "is_digit c \<Longrightarrow> digit_char (digit_value c) = c"
  by (auto simp add: is_digit_def digit_value_def digit_char_def char_of_eq_iff take_bit_eq_mod)

lemma digit_value_less: "is_digit c \<Longrightarrow> digit_value c < 10"
  by (auto simp add: is_digit_def digit_value_def)

lemma of_char_digit_char: "d < 16 \<Longrightarrow> of_char (digit_char d) = (if d < 10 then 48 + d else 87 + d)"
  by (simp add: digit_char_def)

lemma digit_char_not_special [simp]:
  "d < 16 \<Longrightarrow> digit_char d \<noteq> CHR '':''"
  "d < 16 \<Longrightarrow> digit_char d \<noteq> CHR ''.''"
  "d < 16 \<Longrightarrow> digit_char d \<noteq> CHR 0x00"
  "d < 16 \<Longrightarrow> \<not> py_isspace (digit_char d)"
  by (auto simp add: digit_char_def char_of_eq_iff take_bit_eq_mod py_isspace_def Let_def)

lemma special_not_digit [simp]:
  "hex_digit_value CHR '':'' = None" "hex_digit_value CHR ''.'' = None"
  "\<not> is_digit CHR '':''" "\<not> is_digit CHR ''.''"
  by (simp_all add: hex_digit_value_def is_digit_def)

subsection \<open>The IPv4 parser and printer\<close>

lemma dotted_snoc: "done \<noteq> [] \<Longrightarrow> dotted (done @ [c]) = dotted done @ ''.'' @ fmt_u c"
  by (induction "done" rule: dotted.induct) auto

lemma inet_ntop4_dotted: "length b = 4 \<Longrightarrow> inet_ntop4 b = dotted b"
  by (auto simp add: inet_ntop4_def length_Suc_conv eval_nat_numeral)

lemma fmt_u_digit: "n < 10 \<Longrightarrow> fmt_u n = [digit_char n]"
  by (simp add: fmt_u.simps)

lemma fmt_u_step: "0 < n \<Longrightarrow> d < 10 \<Longrightarrow> fmt_u (n * 10 + d) = fmt_u n @ [digit_char d]"
  by (subst fmt_u.simps) simp

lemma dotted_concat: "dotted (done @ [c]) = concat (map (\<lambda>b. fmt_u b @ ''.'') done) @ fmt_u c"
  by (induction "done" rule: dotted.induct) auto

lemma inet_pton4_loop_sound:
  "inet_pton4_loop s saw oct done cur = Some b \<Longrightarrow>
   (\<not> saw \<longrightarrow> cur = 0) \<Longrightarrow> cur < 256 \<Longrightarrow> (\<forall>x\<in>set done. x < 256) \<Longrightarrow>
   oct = length done + (if saw then 1 else 0) \<Longrightarrow> oct \<le> 4 \<Longrightarrow> (\<not> saw \<longrightarrow> oct < 4) \<Longrightarrow>
   length b = 4 \<and> (\<forall>x\<in>set b. x < 256) \<and> dotted b = read4 done saw cur @ s"
proof (induction s saw oct "done" cur rule: inet_pton4_loop.induct)
  case (1 saw_digit octets "done" cur)
  then show ?case
    by (auto simp add: read4_def dotted_concat split: if_splits)
next
  case (2 ch src saw_digit octets "done" cur)
  show ?case
  proof (cases "is_digit ch")
    case True
    note dig = this
    let ?new = "cur * 10 + digit_value ch"
    have dv: "digit_value ch < 10" using dig by (rule digit_value_less)
    have dc: "digit_char (digit_value ch) = ch" using dig by (rule digit_value_char)
    show ?thesis
    proof (cases saw_digit)
      case True
      with 2 dig have c0: "cur \<noteq> 0" and n: "?new \<le> 255"
        and r: "inet_pton4_loop src True octets done ?new = Some b"
        by (auto simp add: Let_def split: if_splits)
      have "length b = 4 \<and> (\<forall>x\<in>set b. x < 256) \<and> dotted b = read4 done True ?new @ src"
        using "2.IH"(2)[OF dig refl] r True c0 n "2.prems" by auto
      moreover have "fmt_u ?new = fmt_u cur @ [ch]"
        using fmt_u_step[of cur "digit_value ch"] c0 dv dc by simp
      ultimately show ?thesis using True by (simp add: read4_def)
    next
      case False
      with 2 dig have c0: "cur = 0" and n: "?new \<le> 255" and o: "\<not> octets + 1 > 4"
        and r: "inet_pton4_loop src True (octets + 1) done ?new = Some b"
        by (auto simp add: Let_def split: if_splits)
      have "length b = 4 \<and> (\<forall>x\<in>set b. x < 256) \<and> dotted b = read4 done True ?new @ src"
        using "2.IH"(1)[OF dig refl] r False c0 n o "2.prems" by auto
      moreover have "fmt_u ?new = [ch]"
        using c0 dv dc by (simp add: fmt_u_digit)
      ultimately show ?thesis using False by (simp add: read4_def)
    qed
  next
    case False
    with 2 have dot: "ch = CHR ''.''" and saw: saw_digit and o: "octets \<noteq> 4"
      and r: "inet_pton4_loop src False octets (done @ [cur]) 0 = Some b"
      by (auto split: if_splits)
    have "length b = 4 \<and> (\<forall>x\<in>set b. x < 256) \<and> dotted b = read4 (done @ [cur]) False 0 @ src"
      using "2.IH"(3)[OF False] r dot saw o "2.prems" by auto
    then show ?thesis using dot saw by (simp add: read4_def)
  qed
qed

lemma inet_pton4_sound:
  assumes "inet_pton4 s = Some b"
  shows "length b = 4" and "\<forall>x\<in>set b. x < 256" and "inet_ntop4 b = s"
proof -
  have "length b = 4 \<and> (\<forall>x\<in>set b. x < 256) \<and> dotted b = read4 [] False 0 @ s"
    using assms unfolding inet_pton4_def by (intro inet_pton4_loop_sound) auto
  then show "length b = 4" and "\<forall>x\<in>set b. x < 256" and "inet_ntop4 b = s"
    by (simp_all add: inet_ntop4_dotted read4_def)
qed

lemma inet_pton4_scan_octet:
  "n < 256 \<Longrightarrow> oct < 4 \<Longrightarrow>
   inet_pton4_loop (fmt_u n @ rest) False oct done 0 = inet_pton4_loop rest True (oct + 1) done n"
proof (induction n arbitrary: rest rule: fmt_u.induct)
  case (1 n)
  show ?case
  proof (cases "n < 10")
    case True
    then show ?thesis using 1(3) by (simp add: fmt_u_digit Let_def)
  next
    case False
    let ?q = "n div 10" and ?r = "n mod 10"
    have q: "0 < ?q" "?q < 256" using False 1(2) by auto
    have "inet_pton4_loop (fmt_u n @ rest) False oct done 0
        = inet_pton4_loop (fmt_u ?q @ digit_char ?r # rest) False oct done 0"
      using False by (subst fmt_u.simps) simp
    also have "\<dots> = inet_pton4_loop (digit_char ?r # rest) True (oct + 1) done ?q"
      using "1.IH"[OF False q(2) 1(3)] .
    also have "\<dots> = inet_pton4_loop rest True (oct + 1) done n"
      using q 1(2) by (simp add: Let_def)
    finally show ?thesis .
  qed
qed

lemma inet_pton4_of_ntop4:
  assumes "length b = 4" "\<forall>x\<in>set b. x < 256"
  shows "inet_pton4 (inet_ntop4 b) = Some b"
proof -
  obtain a1 a2 a3 a4 where b: "b = [a1, a2, a3, a4]"
    using assms(1) by (auto simp add: length_Suc_conv eval_nat_numeral)
  have lt: "a1 < 256" "a2 < 256" "a3 < 256" "a4 < 256" using assms(2) b by auto
  show ?thesis
    unfolding b inet_pton4_def inet_ntop4_def
    using lt by (simp add: inet_pton4_scan_octet inet_pton4_scan_octet[where rest="[]", simplified])
qed

subsection \<open>The result of the IPv6 parser\<close>

lemma word_bytes_bound: "\<forall>x\<in>set (word_bytes v). x < 256"
  by (simp add: word_bytes_def)

lemma length_word_bytes [simp]: "length (word_bytes v) = 2"
  by (simp add: word_bytes_def)

lemma inet_pton6_finish_sound:
  assumes "inet_pton6_finish tp cp n v = Some b" "length tp \<le> 16" "\<forall>x\<in>set tp. x < 256"
  shows "length b = 16 \<and> (\<forall>x\<in>set b. x < 256)"
proof -
  define tp1 where "tp1 = (if n > 0 then tp @ word_bytes v else tp)"
  have n: "\<not> (n > 0 \<and> length tp + 2 > 16)"
    using assms(1) by (auto simp add: inet_pton6_finish_def)
  have l: "length tp1 \<le> 16" using n assms(2) by (auto simp add: tp1_def)
  have s: "\<forall>x\<in>set tp1. x < 256" using assms(3) word_bytes_bound by (auto simp add: tp1_def)
  show ?thesis
  proof (cases cp)
    case None
    then have "b = tp1" "length tp1 = 16"
      using assms(1) n by (auto simp add: inet_pton6_finish_def tp1_def Let_def split: if_splits)
    then show ?thesis using s by simp
  next
    case (Some c)
    then have b: "b = take c tp1 @ replicate (16 - length tp1) 0 @ drop c tp1"
      using assms(1) n by (auto simp add: inet_pton6_finish_def tp1_def Let_def split: if_splits)
    have "length b = 16" using l by (auto simp add: b)
    moreover have "\<forall>x\<in>set b. x < 256"
      using s by (auto simp add: b dest: in_set_takeD in_set_dropD)
    ultimately show ?thesis by simp
  qed
qed

lemma inet_pton6_loop_sound:
  "inet_pton6_loop s ct tp cp n v = Some b \<Longrightarrow> length tp \<le> 16 \<Longrightarrow> \<forall>x\<in>set tp. x < 256 \<Longrightarrow>
   length b = 16 \<and> (\<forall>x\<in>set b. x < 256)"
proof (induction s ct tp cp n v rule: inet_pton6_loop.induct)
  case (1 curtok tp colonp xdigits_seen val)
  then show ?case using inet_pton6_finish_sound by simp
next
  case (2 ch src curtok tp colonp xdigits_seen val)
  show ?case
  proof (cases "hex_digit_value ch")
    case (Some d)
    with "2.prems"(1) have r: "inet_pton6_loop src curtok tp colonp (xdigits_seen + 1) (val * 16 + d) = Some b"
      and c: "xdigits_seen \<noteq> 4" "\<not> val * 16 + d > 65535"
      by (auto simp add: Let_def split: if_splits)
    show ?thesis using "2.IH" Some c r "2.prems"(2,3) by blast
  next
    case None
    note hx = this
    show ?thesis
    proof (cases "ch = CHR '':''")
      case True
      note col = this
      show ?thesis
      proof (cases "xdigits_seen = 0")
        case True
        with "2.prems"(1) hx col have r: "inet_pton6_loop src src tp (Some (length tp)) xdigits_seen val = Some b"
          and c: "\<not> colonp \<noteq> None"
          by (auto split: if_splits)
        show ?thesis using "2.IH" hx col True c r "2.prems"(2,3) by blast
      next
        case False
        with "2.prems"(1) hx col have r: "inet_pton6_loop src src (tp @ word_bytes val) colonp 0 0 = Some b"
          and c: "src \<noteq> []" "\<not> length tp + 2 > 16"
          by (auto split: if_splits)
        have "length (tp @ word_bytes val) \<le> 16" "\<forall>x\<in>set (tp @ word_bytes val). x < 256"
          using c(2) "2.prems"(3) word_bytes_bound by auto
        then show ?thesis using "2.IH" hx col False c r by blast
      qed
    next
      case False
      with "2.prems"(1) hx obtain b4 where dot: "ch = CHR ''.''" "length tp + 4 \<le> 16"
        and p4: "inet_pton4 curtok = Some b4"
        and r: "inet_pton6_finish (tp @ b4) colonp 0 val = Some b"
        by (auto split: if_splits option.splits)
      have "length (tp @ b4) \<le> 16" "\<forall>x\<in>set (tp @ b4). x < 256"
        using dot(2) "2.prems"(3) inet_pton4_sound(1,2)[OF p4] by auto
      then show ?thesis using inet_pton6_finish_sound[OF r] by simp
    qed
  qed
qed

lemma inet_pton6_sound:
  assumes "inet_pton6 s = Some b"
  shows "length b = 16" and "\<forall>x\<in>set b. x < 256"
proof -
  have "length b = 16 \<and> (\<forall>x\<in>set b. x < 256)"
    using assms inet_pton6_loop_sound[of _ _ "[]" None 0 0 b]
    by (auto simp add: inet_pton6_def simp del: inet_pton6_loop.simps split: list.splits if_splits)
  then show "length b = 16" and "\<forall>x\<in>set b. x < 256" by simp_all
qed

text \<open>The parser reads back a printed group.\<close>

lemma fmt_x_digit: "n < 16 \<Longrightarrow> fmt_x n = [digit_char n]"
  by (simp add: fmt_x.simps)

lemma fmt_x_nonempty [simp]: "fmt_x n \<noteq> []"
  by (subst fmt_x.simps) simp

lemma fmt_u_nonempty [simp]: "fmt_u n \<noteq> []"
  by (subst fmt_u.simps) simp

lemma length_fmt_x: "n < 16 ^ k \<Longrightarrow> 0 < k \<Longrightarrow> length (fmt_x n) \<le> k"
proof (induction n arbitrary: k rule: fmt_x.induct)
  case (1 n)
  show ?case
  proof (cases "n < 16")
    case True
    then show ?thesis using 1(3) by (simp add: fmt_x_digit)
  next
    case False
    then obtain k' where k: "k = Suc k'" "0 < k'"
      using 1(2,3) by (cases k; cases "k - 1") auto
    have "n div 16 < 16 ^ k'" using 1(2) k by (simp add: less_mult_imp_div_less)
    from "1.IH"[OF False this k(2)] show ?thesis
      using False k by (subst fmt_x.simps) simp
  qed
qed

lemma inet_pton6_scan_hex:
  "n < 65536 \<Longrightarrow>
   inet_pton6_loop (fmt_x n @ rest) ct tp cp 0 0 = inet_pton6_loop rest ct tp cp (length (fmt_x n)) n"
proof (induction n arbitrary: rest rule: fmt_x.induct)
  case (1 n)
  show ?case
  proof (cases "n < 16")
    case True
    then show ?thesis by (simp add: fmt_x_digit Let_def)
  next
    case False
    let ?q = "n div 16" and ?r = "n mod 16"
    have q: "?q < 4096" using 1(2) by simp
    then have lq: "length (fmt_x ?q) \<le> 3" using length_fmt_x[of ?q 3] by simp
    have fx: "fmt_x n = fmt_x ?q @ [digit_char ?r]"
      using False by (subst fmt_x.simps) simp
    have "inet_pton6_loop (fmt_x n @ rest) ct tp cp 0 0
        = inet_pton6_loop (fmt_x ?q @ digit_char ?r # rest) ct tp cp 0 0"
      by (simp add: fx)
    also have "\<dots> = inet_pton6_loop (digit_char ?r # rest) ct tp cp (length (fmt_x ?q)) ?q"
      using "1.IH"[OF False] q by simp
    also have "\<dots> = inet_pton6_loop rest ct tp cp (length (fmt_x n)) n"
      using lq 1(2) by (simp add: Let_def fx)
    finally show ?thesis .
  qed
qed

subsection \<open>The IPv6 parser on printed groups\<close>

lemma colon_groups_simps [simp]:
  "colon_groups [] = []"
  "colon_groups (w # ws) = CHR '':'' # fmt_x w @ colon_groups ws"
  "colon_groups (xs @ ys) = colon_groups xs @ colon_groups ys"
  by (simp_all add: colon_groups_def)

lemma bytes_of_simps [simp]:
  "bytes_of [] = []"
  "bytes_of (w # ws) = word_bytes w @ bytes_of ws"
  "bytes_of (xs @ ys) = bytes_of xs @ bytes_of ys"
  by (simp_all add: bytes_of_def)

lemma length_bytes_of [simp]: "length (bytes_of ws) = 2 * length ws"
  by (induction ws) auto

lemma bytes_of_replicate: "bytes_of (replicate l 0) = replicate (2 * l) 0"
  by (induction l) (auto simp add: word_bytes_def)

lemma inet_pton6_finish_pending:
  "0 < n \<Longrightarrow> length tp + 2 \<le> 16 \<Longrightarrow>
   inet_pton6_finish tp cp n v = inet_pton6_finish (tp @ word_bytes v) cp 0 0"
  by (simp add: inet_pton6_finish_def)

lemma inet_pton6_scan_colon_group:
  assumes "0 < n" "length tp + 2 \<le> 16" "w < 65536"
  shows "inet_pton6_loop (CHR '':'' # fmt_x w @ rest) ct tp cp n v =
         inet_pton6_loop rest (fmt_x w @ rest) (tp @ word_bytes v) cp (length (fmt_x w)) w"
  using assms by (simp add: inet_pton6_scan_hex)

lemma inet_pton6_scan_groups_end:
  "0 < n \<Longrightarrow> \<forall>w\<in>set ws. w < 65536 \<Longrightarrow> length tp + 2 * (1 + length ws) \<le> 16 \<Longrightarrow>
   inet_pton6_loop (colon_groups ws) ct tp cp n v = inet_pton6_finish (tp @ bytes_of (v # ws)) cp 0 0"
proof (induction ws arbitrary: ct tp n v)
  case Nil
  then show ?case by (simp add: inet_pton6_finish_pending)
next
  case (Cons w ws)
  have "inet_pton6_loop (colon_groups (w # ws)) ct tp cp n v =
        inet_pton6_loop (colon_groups ws) (fmt_x w @ colon_groups ws) (tp @ word_bytes v) cp (length (fmt_x w)) w"
    using Cons.prems by (simp add: inet_pton6_scan_hex)
  also have "\<dots> = inet_pton6_finish ((tp @ word_bytes v) @ bytes_of (w # ws)) cp 0 0"
    using Cons.prems by (intro Cons.IH) auto
  finally show ?case by simp
qed

lemma inet_pton6_scan_groups_dcolon:
  "0 < n \<Longrightarrow> \<forall>w\<in>set ws. w < 65536 \<Longrightarrow> length tp + 2 * (1 + length ws) \<le> 16 \<Longrightarrow>
   inet_pton6_loop (colon_groups ws @ CHR '':'' # CHR '':'' # R) ct tp None n v =
   inet_pton6_loop R R (tp @ bytes_of (v # ws)) (Some (length tp + 2 * (1 + length ws))) 0 0"
proof (induction ws arbitrary: ct tp n v)
  case Nil
  then show ?case by simp
next
  case (Cons w ws)
  have "inet_pton6_loop (colon_groups (w # ws) @ CHR '':'' # CHR '':'' # R) ct tp None n v =
        inet_pton6_loop (colon_groups ws @ CHR '':'' # CHR '':'' # R)
          (fmt_x w @ colon_groups ws @ CHR '':'' # CHR '':'' # R) (tp @ word_bytes v) None (length (fmt_x w)) w"
    using Cons.prems by (simp add: inet_pton6_scan_hex)
  also have "\<dots> = inet_pton6_loop R R ((tp @ word_bytes v) @ bytes_of (w # ws))
                      (Some (length (tp @ word_bytes v) + 2 * (1 + length ws))) 0 0"
    using Cons.prems by (intro Cons.IH) auto
  finally show ?case by simp
qed

text \<open>A whole text of groups, read from the start of the loop.\<close>

lemma inet_pton6_loop_join_groups:
  assumes "\<forall>w\<in>set ws. w < 65536" "length tp + 2 * length ws \<le> 16"
  shows "inet_pton6_loop (join_groups ws) ct tp cp 0 0 = inet_pton6_finish (tp @ bytes_of ws) cp 0 0"
proof (cases ws)
  case Nil
  then show ?thesis by (simp add: join_groups_def)
next
  case (Cons w ws')
  have "inet_pton6_loop (join_groups ws) ct tp cp 0 0 =
        inet_pton6_loop (colon_groups ws') ct tp cp (length (fmt_x w)) w"
    using assms Cons inet_pton6_scan_hex[of w "colon_groups ws'"] by (simp add: join_groups_def)
  also have "\<dots> = inet_pton6_finish (tp @ bytes_of (w # ws')) cp 0 0"
    using assms Cons by (intro inet_pton6_scan_groups_end) auto
  finally show ?thesis using Cons by simp
qed

lemma fmt_x_chars: "n < 65536 \<Longrightarrow> c \<in> set (fmt_x n) \<Longrightarrow> \<exists>d<16. c = digit_char d"
proof (induction n rule: fmt_x.induct)
  case (1 n)
  show ?case
  proof (cases "n < 16")
    case True
    then show ?thesis using 1(3) by (auto simp add: fmt_x_digit)
  next
    case False
    have "c \<in> set (fmt_x (n div 16)) \<or> c = digit_char (n mod 16)"
      using 1(3) False by (subst (asm) fmt_x.simps) auto
    then show ?thesis using "1.IH"[OF False] 1(2) by (auto intro: exI[of _ "n mod 16"])
  qed
qed

lemma fmt_x_Cons: "n < 65536 \<Longrightarrow> \<exists>d cs. d < 16 \<and> fmt_x n = digit_char d # cs"
  using fmt_x_chars[of n "hd (fmt_x n)"] fmt_x_nonempty[of n]
  by (cases "fmt_x n") auto

lemma inet_pton6_start_digit:
  assumes "w < 65536"
  shows "inet_pton6 (fmt_x w @ X) = inet_pton6_loop (fmt_x w @ X) (fmt_x w @ X) [] None 0 0"
proof -
  obtain d cs where "d < 16" "fmt_x w = digit_char d # cs"
    using fmt_x_Cons[OF assms] by blast
  then show ?thesis by (simp add: inet_pton6_def)
qed

lemma inet_pton6_start_dcolon:
  "inet_pton6 (CHR '':'' # CHR '':'' # R) = inet_pton6_loop R R [] (Some 0) 0 0"
  by (simp add: inet_pton6_def)

text \<open>Groups, a double colon, groups: the compressed form.\<close>

lemma inet_pton6_pre_dcolon:
  assumes "\<forall>w\<in>set pre. w < 65536" "2 * length pre \<le> 16"
  shows "inet_pton6 (join_groups pre @ CHR '':'' # CHR '':'' # R) =
         inet_pton6_loop R R (bytes_of pre) (Some (2 * length pre)) 0 0"
proof (cases pre)
  case Nil
  then show ?thesis by (simp add: join_groups_def inet_pton6_start_dcolon)
next
  case (Cons w pre')
  let ?X = "colon_groups pre' @ CHR '':'' # CHR '':'' # R"
  have w: "w < 65536" using assms Cons by simp
  have "inet_pton6 (join_groups pre @ CHR '':'' # CHR '':'' # R) =
        inet_pton6_loop (fmt_x w @ ?X) (fmt_x w @ ?X) [] None 0 0"
    using inet_pton6_start_digit[OF w, of ?X] Cons by (simp add: join_groups_def)
  also have "\<dots> = inet_pton6_loop ?X (fmt_x w @ ?X) [] None (length (fmt_x w)) w"
    using w by (simp add: inet_pton6_scan_hex)
  also have "\<dots> = inet_pton6_loop R R ([] @ bytes_of (w # pre')) (Some (length ([]::nat list) + 2 * (1 + length pre'))) 0 0"
    using assms Cons by (intro inet_pton6_scan_groups_dcolon) auto
  finally show ?thesis using Cons by simp
qed

lemma inet_pton6_compressed:
  assumes "\<forall>w\<in>set pre. w < 65536" "\<forall>w\<in>set post. w < 65536"
    and "length pre + l + length post = 8" "0 < l"
  shows "inet_pton6 (join_groups pre @ ''::'' @ join_groups post) =
         Some (bytes_of (pre @ replicate l 0 @ post))"
proof -
  have "inet_pton6 (join_groups pre @ ''::'' @ join_groups post) =
        inet_pton6_loop (join_groups post) (join_groups post) (bytes_of pre) (Some (2 * length pre)) 0 0"
    using assms inet_pton6_pre_dcolon[of pre "join_groups post"] by simp
  also have "\<dots> = inet_pton6_finish (bytes_of pre @ bytes_of post) (Some (2 * length pre)) 0 0"
    using assms by (intro inet_pton6_loop_join_groups) auto
  also have "\<dots> = Some (bytes_of pre @ replicate (2 * l) 0 @ bytes_of post)"
  proof -
    have "16 - (2 * length pre + 2 * length post) = 2 * l" using assms(3) by simp
    then show ?thesis using assms(3,4) by (simp add: inet_pton6_finish_def)
  qed
  finally show ?thesis by (simp add: bytes_of_replicate)
qed

lemma inet_pton6_uncompressed:
  assumes "\<forall>w\<in>set ws. w < 65536" "length ws = 8"
  shows "inet_pton6 (join_groups ws) = Some (bytes_of ws)"
proof -
  obtain w ws' where ws: "ws = w # ws'" using assms(2) by (cases ws) auto
  have "inet_pton6 (join_groups ws) = inet_pton6_loop (join_groups ws) (join_groups ws) [] None 0 0"
    using inet_pton6_start_digit[of w "colon_groups ws'"] assms(1) ws by (simp add: join_groups_def)
  also have "\<dots> = inet_pton6_finish ([] @ bytes_of ws) None 0 0"
    using assms by (intro inet_pton6_loop_join_groups) auto
  finally show ?thesis using assms(2) by (simp add: inet_pton6_finish_def)
qed

subsection \<open>Groups, bytes and runs of zeros\<close>

lemma word_bytes_combine: "hi < 256 \<Longrightarrow> lo < 256 \<Longrightarrow> word_bytes (hi * 256 + lo) = [hi, lo]"
  by (simp add: word_bytes_def)

lemma to_words_props:
  "even (length src) \<Longrightarrow> \<forall>x\<in>set src. x < 256 \<Longrightarrow>
   2 * length (to_words src) = length src \<and> (\<forall>w\<in>set (to_words src). w < 65536) \<and>
   bytes_of (to_words src) = src"
proof (induction src rule: to_words.induct)
  case (1 hi lo bs)
  then have "hi * 256 + lo < 65536" by simp
  then show ?case using 1 by (simp add: word_bytes_combine)
qed simp_all

lemma bytes_of_take: "take (2 * k) (bytes_of ws) = bytes_of (take k ws)"
proof (induction ws arbitrary: k)
  case Nil
  then show ?case by simp
next
  case (Cons w ws)
  show ?case
  proof (cases k)
    case 0
    then show ?thesis by simp
  next
    case (Suc k')
    then show ?thesis using Cons[of k'] by (simp add: word_bytes_def)
  qed
qed

lemma bytes_of_drop: "drop (2 * k) (bytes_of ws) = bytes_of (drop k ws)"
proof (induction ws arbitrary: k)
  case Nil
  then show ?case by simp
next
  case (Cons w ws)
  show ?case
  proof (cases k)
    case 0
    then show ?thesis by simp
  next
    case (Suc k')
    then show ?thesis using Cons[of k'] by (simp add: word_bytes_def)
  qed
qed

lemma zero_run_better: "zero_run ws best \<Longrightarrow> zero_run ws (Some c) \<Longrightarrow> zero_run ws (better_run best c)"
  by (auto simp add: better_run_def split: option.splits)

lemma find_run_zero_run:
  "all = pre @ ws \<Longrightarrow> i = length pre \<Longrightarrow> zero_run all best \<Longrightarrow> zero_run all cur \<Longrightarrow>
   (\<forall>cb cl. cur = Some (cb, cl) \<longrightarrow> cb + cl = i) \<Longrightarrow>
   zero_run all (find_run ws i best cur)"
proof (induction ws arbitrary: pre i best cur)
  case Nil
  then show ?case by (auto simp add: zero_run_better split: option.splits)
next
  case (Cons w ws)
  have app: "all = (pre @ [w]) @ ws" using Cons.prems(1) by simp
  have len: "i + 1 = length (pre @ [w])" using Cons.prems(2) by simp
  have wi: "all ! i = w" using Cons.prems(1,2) by simp
  have il: "i < length all" using Cons.prems(1,2) by simp
  show ?case
  proof (cases "w = 0")
    case True
    note w0 = this
    show ?thesis
    proof (cases cur)
      case None
      have "zero_run all (Some (i, 1))"
        using w0 wi il by (simp add: zero_run_def)
      then have "zero_run all (find_run ws (i + 1) best (Some (i, 1)))"
        using Cons.prems(3) by (intro Cons.IH[OF app len]) auto
      then show ?thesis using w0 None by simp
    next
      case (Some c)
      obtain cb cl where c: "c = (cb, cl)" by (cases c)
      have e: "cb + cl = i" using Cons.prems(5) Some c by simp
      have z: "\<forall>j<cl. all ! (cb + j) = 0"
        using Cons.prems(4) Some c by (simp add: zero_run_def)
      have "\<forall>j<cl + 1. all ! (cb + j) = 0"
      proof (intro allI impI)
        fix j assume "j < cl + 1"
        then consider "j < cl" | "j = cl" by linarith
        then show "all ! (cb + j) = 0"
          using z e w0 wi by cases auto
      qed
      then have "zero_run all (Some (cb, cl + 1))"
        using e il by (simp add: zero_run_def)
      then have "zero_run all (find_run ws (i + 1) best (Some (cb, cl + 1)))"
        using Cons.prems(3) e by (intro Cons.IH[OF app len]) auto
      then show ?thesis using w0 Some c by simp
    qed
  next
    case False
    note w1 = this
    show ?thesis
    proof (cases cur)
      case None
      have "zero_run all (find_run ws (i + 1) best None)"
        using Cons.prems(3) by (intro Cons.IH[OF app len]) (auto simp add: zero_run_def)
      then show ?thesis using w1 None by simp
    next
      case (Some c)
      have "zero_run all (better_run best c)"
        using Cons.prems(3,4) Some zero_run_better by simp
      then have "zero_run all (find_run ws (i + 1) (better_run best c) None)"
        by (intro Cons.IH[OF app len]) (auto simp add: zero_run_def)
      then show ?thesis using w1 Some by simp
    qed
  qed
qed

lemma best_run_props:
  assumes "best_run ws = Some (b, l)"
  shows "2 \<le> l" and "b + l \<le> length ws" and "\<forall>j<l. ws ! (b + j) = 0"
proof -
  have "zero_run ws (find_run ws 0 None None)"
    by (rule find_run_zero_run[of ws "[]"]) (auto simp add: zero_run_def)
  moreover have "find_run ws 0 None None = Some (b, l)" and l: "2 \<le> l"
    using assms by (auto simp add: best_run_def split: option.splits if_splits)
  ultimately show "2 \<le> l" and "b + l \<le> length ws" and "\<forall>j<l. ws ! (b + j) = 0"
    by (auto simp add: zero_run_def)
qed

lemma best_run_split:
  assumes "best_run ws = Some (b, l)"
  shows "ws = take b ws @ replicate l 0 @ drop (b + l) ws"
proof -
  note p = best_run_props[OF assms]
  have "take l (drop b ws) = replicate l 0"
    using p(2,3) by (intro nth_equalityI) auto
  moreover have "drop b ws = take l (drop b ws) @ drop (b + l) ws"
    using append_take_drop_id[of l "drop b ws"] by (simp add: add.commute)
  moreover have "ws = take b ws @ drop b ws"
    by simp
  ultimately show ?thesis by metis
qed

subsection \<open>The IPv6 printer\<close>

lemma inet_ntop6_loop_outside:
  "0 < i \<Longrightarrow> \<forall>j. i \<le> j \<and> j < i + length xs \<longrightarrow> \<not> in_best best j \<and> \<not> (j = 6 \<and> is_encapsulated words best) \<Longrightarrow>
   inet_ntop6_loop src words best i (xs @ ys) tp =
   inet_ntop6_loop src words best (i + length xs) ys (tp @ colon_groups xs)"
proof (induction xs arbitrary: i tp)
  case Nil
  then show ?case by simp
next
  case (Cons x xs)
  have here: "\<not> in_best best i" "\<not> (i = 6 \<and> is_encapsulated words best)"
    using Cons.prems(2) by auto
  have "inet_ntop6_loop src words best i ((x # xs) @ ys) tp =
        inet_ntop6_loop src words best (i + 1) (xs @ ys) (tp @ '':'' @ fmt_x x)"
    using here Cons.prems(1) by (auto simp add: Let_def)
  also have "\<dots> = inet_ntop6_loop src words best (i + 1 + length xs) ys ((tp @ '':'' @ fmt_x x) @ colon_groups xs)"
  proof (intro Cons.IH allI impI)
    fix j assume "i + 1 \<le> j \<and> j < i + 1 + length xs"
    then have "i \<le> j \<and> j < i + length (x # xs)" by simp
    then show "\<not> in_best best j \<and> \<not> (j = 6 \<and> is_encapsulated words best)"
      using Cons.prems(2) by blast
  qed simp
  finally show ?case by simp
qed

lemma inet_ntop6_loop_inside:
  "b \<le> i \<Longrightarrow> i + length xs \<le> b + l \<Longrightarrow>
   inet_ntop6_loop src words (Some (b, l)) i (xs @ ys) tp =
   inet_ntop6_loop src words (Some (b, l)) (i + length xs) ys (if i = b \<and> xs \<noteq> [] then tp @ '':'' else tp)"
proof (induction xs arbitrary: i tp)
  case Nil
  then show ?case by simp
next
  case (Cons x xs)
  have "inet_ntop6_loop src words (Some (b, l)) i ((x # xs) @ ys) tp =
        inet_ntop6_loop src words (Some (b, l)) (i + 1) (xs @ ys) (if i = b then tp @ '':'' else tp)"
    using Cons.prems by (auto simp add: in_best_def)
  also have "\<dots> = inet_ntop6_loop src words (Some (b, l)) (i + 1 + length xs) ys (if i = b then tp @ '':'' else tp)"
    using Cons.prems Cons.IH[of "i + 1" "if i = b then tp @ '':'' else tp"] by auto
  finally show ?case by simp
qed

lemma join_groups_Cons: "join_groups (w # ws) = fmt_x w @ colon_groups ws"
  by (simp add: join_groups_def)

lemma colon_groups_join: "ws \<noteq> [] \<Longrightarrow> colon_groups ws = CHR '':'' # join_groups ws"
  by (cases ws) (simp_all add: join_groups_def)

text \<open>The printed form when no run of zeros is compressed.\<close>

lemma inet_ntop6_plain:
  assumes "best_run (to_words src) = None" "to_words src \<noteq> []"
  shows "inet_ntop6 src = join_groups (to_words src)"
proof -
  obtain w ws where ws: "to_words src = w # ws" using assms(2) by (cases "to_words src") auto
  have "inet_ntop6_loop src (w # ws) None 0 (w # ws) [] = inet_ntop6_loop src (w # ws) None 1 ws (fmt_x w)"
    by (simp add: in_best_def is_encapsulated_def)
  also have "\<dots> = inet_ntop6_loop src (w # ws) None (1 + length ws) [] (fmt_x w @ colon_groups ws)"
    using inet_ntop6_loop_outside[of 1 ws None "w # ws" src "[]" "fmt_x w"]
    by (simp add: in_best_def is_encapsulated_def)
  finally show ?thesis using assms(1) ws by (simp add: inet_ntop6_def join_groups_Cons)
qed

text \<open>The printed form with a compressed run of zeros and no IPv4 part.\<close>

lemma inet_ntop6_compressed:
  assumes b: "best_run (to_words src) = Some (b, l)"
    and ne: "\<not> is_encapsulated (to_words src) (Some (b, l))"
    and len: "length (to_words src) = 8"
  shows "inet_ntop6 src =
         join_groups (take b (to_words src)) @ ''::'' @ join_groups (drop (b + l) (to_words src))"
proof -
  let ?ws = "to_words src"
  let ?best = "Some (b, l)"
  define pre where "pre = take b ?ws"
  define post where "post = drop (b + l) ?ws"
  note p = best_run_props[OF b]
  have ws: "?ws = pre @ replicate l 0 @ post"
    using best_run_split[OF b] by (simp add: pre_def post_def)
  have lpre: "length pre = b" using p(2) by (simp add: pre_def)
  have lpost: "b + l + length post = 8" using p(2) len by (simp add: post_def)
  have after: "inet_ntop6_loop src ?ws ?best (b + l) post tp =
               tp @ colon_groups post" for tp
  proof -
    have "inet_ntop6_loop src ?ws ?best (b + l) (post @ []) tp =
          inet_ntop6_loop src ?ws ?best (b + l + length post) [] (tp @ colon_groups post)"
      using p(1) ne by (intro inet_ntop6_loop_outside) (auto simp add: in_best_def)
    then show ?thesis by simp
  qed
  have run: "inet_ntop6_loop src ?ws ?best b (replicate l 0 @ post) tp =
             tp @ '':'' @ colon_groups post" for tp
  proof -
    have "inet_ntop6_loop src ?ws ?best b (replicate l 0 @ post) tp =
          inet_ntop6_loop src ?ws ?best (b + length (replicate l (0::nat))) post
            (if b = b \<and> replicate l (0::nat) \<noteq> [] then tp @ '':'' else tp)"
      by (intro inet_ntop6_loop_inside) auto
    then show ?thesis using p(1) after by auto
  qed
  have loop: "inet_ntop6_loop src ?ws ?best 0 ?ws [] = join_groups pre @ '':'' @ colon_groups post"
  proof (cases pre)
    case Nil
    then have "b = 0" using lpre by simp
    then show ?thesis using run[of "[]"] ws Nil by (simp add: join_groups_def)
  next
    case (Cons w pre')
    then have b0: "0 < b" using lpre by auto
    have "inet_ntop6_loop src ?ws ?best 0 (w # pre' @ replicate l 0 @ post) [] =
          inet_ntop6_loop src ?ws ?best 1 (pre' @ replicate l 0 @ post) (fmt_x w)"
      using b0 by (simp add: in_best_def)
    also have "\<dots> = inet_ntop6_loop src ?ws ?best (1 + length pre') (replicate l 0 @ post) (fmt_x w @ colon_groups pre')"
      using lpre Cons ne by (intro inet_ntop6_loop_outside) (auto simp add: in_best_def)
    also have "\<dots> = (fmt_x w @ colon_groups pre') @ '':'' @ colon_groups post"
      using run lpre Cons by simp
    finally show ?thesis using ws Cons by (simp add: join_groups_Cons)
  qed
  have "inet_ntop6 src = join_groups pre @ '':'' @ colon_groups post @ (if b + l = 8 then '':'' else [])"
    using b loop by (simp add: inet_ntop6_def)
  also have "\<dots> = join_groups pre @ ''::'' @ join_groups post"
  proof (cases post)
    case Nil
    then show ?thesis using lpost by (simp add: join_groups_def)
  next
    case (Cons a list)
    then show ?thesis using lpost by (simp add: join_groups_Cons)
  qed
  finally show ?thesis by (simp add: pre_def post_def)
qed

text \<open>The printed form of an encapsulated IPv4 address.\<close>

lemma list_of_length_2: "length xs = 2 \<Longrightarrow> \<exists>a b. xs = [a, b]"
  by (auto simp add: length_Suc_conv eval_nat_numeral)

lemma list_of_length_3: "length xs = 3 \<Longrightarrow> \<exists>a b c. xs = [a, b, c]"
  by (auto simp add: length_Suc_conv eval_nat_numeral)

lemma list_of_length_4: "length xs = 4 \<Longrightarrow> \<exists>a b c d. xs = [a, b, c, d]"
  by (auto simp add: length_Suc_conv eval_nat_numeral)

lemma fmt_x_ffff: "fmt_x 65535 = ''ffff''"
  by (simp add: fmt_x.simps digit_char_def char_of_eq_iff)

lemma inet_ntop6_encapsulated:
  assumes b: "best_run (to_words src) = Some (b, l)"
    and e: "is_encapsulated (to_words src) (Some (b, l))"
    and len: "length (to_words src) = 8"
  shows "inet_ntop6 src = (if l = 5 then ''::ffff:'' else ''::'') @ inet_ntop4 (drop 12 src)"
proof -
  let ?ws = "to_words src"
  let ?best = "Some (b, l)"
  have b0: "b = 0" and l: "l = 6 \<or> (l = 5 \<and> ?ws ! 5 = 65535)"
    using e by (auto simp add: is_encapsulated_def)
  define post where "post = drop l ?ws"
  have ws: "?ws = replicate l 0 @ post"
    using best_run_split[OF b] b0 by (simp add: post_def)
  have lp: "length post = 8 - l" by (simp add: post_def len)
  have run: "inet_ntop6_loop src ?ws ?best 0 (replicate l 0 @ post) [] =
        inet_ntop6_loop src ?ws ?best (0 + length (replicate l (0::nat))) post
            (if 0 = b \<and> replicate l (0::nat) \<noteq> [] then [] @ '':'' else [])"
    using b0 by (intro inet_ntop6_loop_inside) auto
  from l show ?thesis
  proof
    assume l6: "l = 6"
    then have "length post = 2" using lp by simp
    then obtain w6 w7 where post: "post = [w6, w7]"
      using list_of_length_2 by blast
    have "inet_ntop6_loop src ?ws ?best 0 ?ws [] = ''::'' @ inet_ntop4 (drop 12 src)"
      using run ws post l6 b0 e by (simp add: in_best_def)
    then show ?thesis using b b0 l6 by (simp add: inet_ntop6_def)
  next
    assume l5: "l = 5 \<and> ?ws ! 5 = 65535"
    then have "length post = 3" using lp by simp
    then obtain w5 w6 w7 where post: "post = [w5, w6, w7]"
      using list_of_length_3 by blast
    have "?ws ! 5 = w5" using ws post l5 by (metis length_replicate nth_append_length)
    then have w5: "w5 = 65535" using l5 by simp
    have "inet_ntop6_loop src ?ws ?best 0 ?ws [] = ''::ffff:'' @ inet_ntop4 (drop 12 src)"
      using run ws post l5 b0 e w5 by (simp add: in_best_def fmt_x_ffff)
    then show ?thesis using b b0 l5 by (simp add: inet_ntop6_def)
  qed
qed

subsection \<open>An IPv4 tail in an IPv6 text\<close>

lemma hex_of_dec_bound: "n < 10 ^ k \<Longrightarrow> 0 < k \<Longrightarrow> hex_of_dec n < 16 ^ k"
proof (induction n arbitrary: k rule: hex_of_dec.induct)
  case (1 n)
  show ?case
  proof (cases "n < 10")
    case True
    have "(16::nat) ^ 1 \<le> 16 ^ k" using 1(3) by (intro power_increasing) auto
    then show ?thesis using True by (subst hex_of_dec.simps) simp
  next
    case False
    then obtain k' where k: "k = Suc k'" "0 < k'"
      using 1(2,3) by (cases k; cases "k - 1") auto
    have "n div 10 < 10 ^ k'" using 1(2) k by (simp add: less_mult_imp_div_less)
    from "1.IH"[OF False this k(2)] have "hex_of_dec (n div 10) + 1 \<le> 16 ^ k'" by simp
    then have "(hex_of_dec (n div 10) + 1) * 16 \<le> 16 ^ k' * 16" by (rule mult_le_mono1)
    moreover have "n mod 10 < 16" by (rule less_trans[OF mod_less_divisor]) auto
    ultimately show ?thesis using False k by (subst hex_of_dec.simps) simp
  qed
qed

lemma length_fmt_u: "n < 10 ^ k \<Longrightarrow> 0 < k \<Longrightarrow> length (fmt_u n) \<le> k"
proof (induction n arbitrary: k rule: fmt_u.induct)
  case (1 n)
  show ?case
  proof (cases "n < 10")
    case True
    then show ?thesis using 1(3) by (simp add: fmt_u_digit)
  next
    case False
    then obtain k' where k: "k = Suc k'" "0 < k'"
      using 1(2,3) by (cases k; cases "k - 1") auto
    have "n div 10 < 10 ^ k'" using 1(2) k by (simp add: less_mult_imp_div_less)
    from "1.IH"[OF False this k(2)] show ?thesis
      using False k by (subst fmt_u.simps) simp
  qed
qed

lemma inet_pton6_scan_dec:
  "n < 1000 \<Longrightarrow>
   inet_pton6_loop (fmt_u n @ rest) ct tp cp 0 0 =
   inet_pton6_loop rest ct tp cp (length (fmt_u n)) (hex_of_dec n)"
proof (induction n arbitrary: rest rule: fmt_u.induct)
  case (1 n)
  show ?case
  proof (cases "n < 10")
    case True
    then show ?thesis by (simp add: fmt_u_digit Let_def hex_of_dec.simps)
  next
    case False
    let ?q = "n div 10" and ?r = "n mod 10"
    have q: "?q < 100" using 1(2) by simp
    then have lq: "length (fmt_u ?q) \<le> 2" using length_fmt_u[of ?q 2] by simp
    have hq: "hex_of_dec ?q < 256" using hex_of_dec_bound[of ?q 2] q by simp
    have fx: "fmt_u n = fmt_u ?q @ [digit_char ?r]"
      using False by (subst fmt_u.simps) simp
    have hn: "hex_of_dec n = hex_of_dec ?q * 16 + ?r"
      using False by (subst hex_of_dec.simps) simp
    have "inet_pton6_loop (fmt_u n @ rest) ct tp cp 0 0
        = inet_pton6_loop (fmt_u ?q @ digit_char ?r # rest) ct tp cp 0 0"
      by (simp add: fx)
    also have "\<dots> = inet_pton6_loop (digit_char ?r # rest) ct tp cp (length (fmt_u ?q)) (hex_of_dec ?q)"
      using "1.IH"[OF False] q by simp
    also have "\<dots> = inet_pton6_loop rest ct tp cp (length (fmt_u n)) (hex_of_dec n)"
    proof -
      have r: "?r < 16" by (rule less_trans[OF mod_less_divisor]) auto
      have "hex_of_dec ?q * 16 + ?r \<le> 65535" using hq r by linarith
      then show ?thesis using lq r by (simp add: Let_def fx hn)
    qed
    finally show ?thesis .
  qed
qed

lemma inet_pton6_finish_val: "inet_pton6_finish tp cp 0 v = inet_pton6_finish tp cp 0 0"
  by (simp add: inet_pton6_finish_def)

lemma inet_pton6_scan_ipv4:
  assumes "length t = 4" "\<forall>x\<in>set t. x < 256" "length tp + 4 \<le> 16"
  shows "inet_pton6_loop (inet_ntop4 t) (inet_ntop4 t) tp cp 0 0 = inet_pton6_finish (tp @ t) cp 0 0"
proof -
  obtain a1 a2 a3 a4 where t: "t = [a1, a2, a3, a4]"
    using assms(1) list_of_length_4 by blast
  define R where "R = fmt_u a2 @ ''.'' @ fmt_u a3 @ ''.'' @ fmt_u a4"
  have n: "inet_ntop4 t = fmt_u a1 @ CHR ''.'' # R"
    by (simp add: t inet_ntop4_def R_def)
  have a1: "a1 < 1000" using assms(2) t by simp
  have p4: "inet_pton4 (inet_ntop4 t) = Some t"
    using assms by (simp add: inet_pton4_of_ntop4)
  have "inet_pton6_loop (inet_ntop4 t) (inet_ntop4 t) tp cp 0 0 =
        inet_pton6_loop (CHR ''.'' # R) (inet_ntop4 t) tp cp (length (fmt_u a1)) (hex_of_dec a1)"
    using inet_pton6_scan_dec[OF a1, of "CHR ''.'' # R" "inet_ntop4 t" tp cp] by (simp add: n)
  also have "\<dots> = inet_pton6_finish (tp @ t) cp 0 (hex_of_dec a1)"
    using assms(3) p4 by simp
  also have "\<dots> = inet_pton6_finish (tp @ t) cp 0 0"
    by (rule inet_pton6_finish_val)
  finally show ?thesis .
qed

subsection \<open>Parsing a printed IPv6 address\<close>

theorem inet_pton6_of_ntop6:
  assumes len: "length src = 16" and bnd: "\<forall>x\<in>set src. x < 256"
  shows "inet_pton6 (inet_ntop6 src) = Some src"
proof -
  let ?ws = "to_words src"
  have w: "length ?ws = 8" "\<forall>w\<in>set ?ws. w < 65536" "bytes_of ?ws = src"
    using to_words_props[of src] len bnd by auto
  show ?thesis
  proof (cases "best_run ?ws")
    case None
    have "?ws \<noteq> []" using w(1) by auto
    then have "inet_ntop6 src = join_groups ?ws" using None by (rule inet_ntop6_plain[rotated])
    then show ?thesis using inet_pton6_uncompressed[OF w(2,1)] w(3) by simp
  next
    case (Some r)
    obtain b l where r: "r = (b, l)" by (cases r)
    note best = Some[unfolded r]
    note p = best_run_props[OF best]
    note sp = best_run_split[OF best]
    show ?thesis
    proof (cases "is_encapsulated ?ws (Some (b, l))")
      case False
      let ?pre = "take b ?ws" and ?post = "drop (b + l) ?ws"
      have ntop: "inet_ntop6 src = join_groups ?pre @ ''::'' @ join_groups ?post"
        using best False w(1) by (rule inet_ntop6_compressed)
      have "\<forall>w\<in>set ?pre. w < 65536" "\<forall>w\<in>set ?post. w < 65536"
        using w(2) by (auto dest: in_set_takeD in_set_dropD)
      moreover have "length ?pre + l + length ?post = 8" "0 < l"
        using p(1,2) w(1) by auto
      ultimately have "inet_pton6 (join_groups ?pre @ ''::'' @ join_groups ?post) =
          Some (bytes_of (?pre @ replicate l 0 @ ?post))"
        by (rule inet_pton6_compressed)
      then show ?thesis using ntop sp w(3) by simp
    next
      case True
      let ?t = "drop 12 src"
      have t: "length ?t = 4" "\<forall>x\<in>set ?t. x < 256"
        using len bnd by (auto dest: in_set_dropD)
      have ntop: "inet_ntop6 src = (if l = 5 then ''::ffff:'' else ''::'') @ inet_ntop4 ?t"
        using best True w(1) by (rule inet_ntop6_encapsulated)
      have b0: "b = 0" and l: "l = 6 \<or> (l = 5 \<and> ?ws ! 5 = 65535)"
        using True by (auto simp add: is_encapsulated_def)
      have hd12: "take 12 src = bytes_of (take 6 ?ws)"
        using bytes_of_take[of 6 ?ws] w(3) by simp
      have src: "src = take 12 src @ ?t" by simp
      from l show ?thesis
      proof
        assume l6: "l = 6"
        have "take 6 ?ws = replicate 6 0"
          using p(2,3) b0 l6 by (intro nth_equalityI) auto
        then have z: "take 12 src = replicate 12 0"
          using hd12 by (simp add: bytes_of_replicate)
        have "inet_pton6 (inet_ntop6 src) = inet_pton6_finish ([] @ ?t) (Some 0) 0 0"
          using ntop l6 t inet_pton6_scan_ipv4[of ?t "[]" "Some 0"]
          by (simp add: inet_pton6_start_dcolon)
        also have "\<dots> = Some (replicate 12 0 @ ?t)"
          using t(1) by (simp add: inet_pton6_finish_def)
        finally show ?thesis using z src by metis
      next
        assume l5: "l = 5 \<and> ?ws ! 5 = 65535"
        have "take 5 ?ws = replicate 5 0"
          using p(2,3) b0 l5 by (intro nth_equalityI) auto
        moreover have "take (Suc 5) ?ws = take 5 ?ws @ [?ws ! 5]"
          using w(1) by (intro take_Suc_conv_app_nth) simp
        ultimately have "take 6 ?ws = replicate 5 0 @ [65535]"
          using l5 by simp
        then have z: "take 12 src = replicate 10 0 @ [255, 255]"
          using hd12 by (simp add: bytes_of_replicate word_bytes_def)
        have "inet_pton6 (inet_ntop6 src) =
              inet_pton6_loop (fmt_x 65535 @ CHR '':'' # inet_ntop4 ?t) (fmt_x 65535 @ CHR '':'' # inet_ntop4 ?t) [] (Some 0) 0 0"
          using ntop l5 by (simp add: inet_pton6_start_dcolon fmt_x_ffff)
        also have "\<dots> = inet_pton6_loop (CHR '':'' # inet_ntop4 ?t) (fmt_x 65535 @ CHR '':'' # inet_ntop4 ?t) [] (Some 0) (length (fmt_x 65535)) 65535"
          by (rule inet_pton6_scan_hex) simp
        also have "\<dots> = inet_pton6_loop (inet_ntop4 ?t) (inet_ntop4 ?t) ([] @ word_bytes 65535) (Some 0) 0 0"
          by (simp add: fmt_x_ffff inet_ntop4_def)
        also have "\<dots> = inet_pton6_finish (([] @ word_bytes 65535) @ ?t) (Some 0) 0 0"
          using t by (intro inet_pton6_scan_ipv4) auto
        also have "\<dots> = Some (replicate 10 0 @ [255, 255] @ ?t)"
          using t(1) by (simp add: inet_pton6_finish_def word_bytes_def)
        finally show ?thesis using z src by (metis append_assoc)
      qed
    qed
  qed
qed

subsection \<open>Characters, strip and replace\<close>

lemma hex_char_props:
  assumes "hex_char c"
  shows "c \<noteq> CHR '':''" "c \<noteq> CHR ''.''" "c \<noteq> CHR 0x00" "\<not> py_isspace c"
  using assms by (auto simp add: hex_char_def)

lemma fmt_u_hex_char: "c \<in> set (fmt_u n) \<Longrightarrow> hex_char c"
proof (induction n rule: fmt_u.induct)
  case (1 n)
  show ?case
  proof (cases "n < 10")
    case True
    then show ?thesis using 1(2) by (auto simp add: fmt_u_digit hex_char_def intro!: exI[of _ n])
  next
    case False
    have "n mod 10 < 16" by (rule less_trans[OF mod_less_divisor]) auto
    moreover have "c \<in> set (fmt_u (n div 10)) \<or> c = digit_char (n mod 10)"
      using 1(2) False by (subst (asm) fmt_u.simps) auto
    ultimately show ?thesis using "1.IH"[OF False] unfolding hex_char_def by blast
  qed
qed

lemma fmt_x_hex_char: "c \<in> set (fmt_x n) \<Longrightarrow> hex_char c"
proof (induction n rule: fmt_x.induct)
  case (1 n)
  show ?case
  proof (cases "n < 16")
    case True
    then show ?thesis using 1(2) by (auto simp add: fmt_x_digit hex_char_def intro!: exI[of _ n])
  next
    case False
    have "n mod 16 < 16" by simp
    moreover have "c \<in> set (fmt_x (n div 16)) \<or> c = digit_char (n mod 16)"
      using 1(2) False by (subst (asm) fmt_x.simps) auto
    ultimately show ?thesis using "1.IH"[OF False] unfolding hex_char_def by blast
  qed
qed

lemma addr_char_props:
  assumes "addr_char c"
  shows "c \<noteq> CHR 0x00" "\<not> py_isspace c"
  using assms hex_char_props by (auto simp add: addr_char_def py_isspace_def)

lemma inet_ntop4_chars: "c \<in> set (inet_ntop4 b) \<Longrightarrow> hex_char c \<or> c = CHR ''.''"
  by (auto simp add: inet_ntop4_def dest: fmt_u_hex_char)

lemma inet_ntop4_no_colon: "CHR '':'' \<notin> set (inet_ntop4 b)"
  using inet_ntop4_chars[of "CHR '':''" b] hex_char_props(1) by auto

lemma inet_ntop4_has_dot: "CHR ''.'' \<in> set (inet_ntop4 b)"
  by (simp add: inet_ntop4_def)

lemma inet_ntop4_nonempty: "inet_ntop4 b \<noteq> []"
  by (simp add: inet_ntop4_def)

lemma colon_groups_chars: "c \<in> set (colon_groups ws) \<Longrightarrow> hex_char c \<or> c = CHR '':''"
  by (induction ws) (auto dest: fmt_x_hex_char)

lemma join_groups_chars: "c \<in> set (join_groups ws) \<Longrightarrow> hex_char c \<or> c = CHR '':''"
  by (cases ws) (auto simp add: join_groups_def dest: fmt_x_hex_char colon_groups_chars)

lemma join_groups_no_dot: "CHR ''.'' \<notin> set (join_groups ws)"
  using join_groups_chars[of "CHR ''.''" ws] hex_char_props(2) by auto

text \<open>What the IPv4 parser cannot accept.\<close>

lemma inet_pton4_colon: "CHR '':'' \<in> set s \<Longrightarrow> inet_pton4 s = None"
  using inet_pton4_sound(3)[of s] inet_ntop4_no_colon by (cases "inet_pton4 s") auto

lemma inet_pton4_no_dot: "CHR ''.'' \<notin> set s \<Longrightarrow> inet_pton4 s = None"
  using inet_pton4_sound(3)[of s] inet_ntop4_has_dot by (cases "inet_pton4 s") auto

text \<open>\<open>strip\<close> on a text without blanks, twice, and on the null character.\<close>

lemma dropWhile_none: "\<forall>c\<in>set xs. \<not> P c \<Longrightarrow> dropWhile P xs = xs"
  by (cases xs) auto

lemma py_strip_no_space: "\<forall>c\<in>set s. \<not> py_isspace c \<Longrightarrow> py_strip s = s"
  by (simp add: py_strip_def dropWhile_none)

lemma py_strip_idem: "py_strip (py_strip s) = py_strip s"
proof -
  define t where "t = dropWhile py_isspace s"
  define u where "u = rev (dropWhile py_isspace (rev t))"
  define v where "v = rev (takeWhile py_isspace (rev t))"
  have tuv: "t = u @ v"
    unfolding u_def v_def
    using takeWhile_dropWhile_id[of py_isspace "rev t"] by (metis rev_append rev_rev_ident)
  have s: "py_strip s = u" by (simp add: py_strip_def t_def u_def)
  have 1: "dropWhile py_isspace u = u"
  proof (cases u)
    case Nil
    then show ?thesis by simp
  next
    case (Cons a u')
    then have "t \<noteq> []" "hd t = a" using tuv by auto
    then have "\<not> py_isspace a" using hd_dropWhile[of py_isspace s] by (simp add: t_def)
    then show ?thesis using Cons by simp
  qed
  have 2: "dropWhile py_isspace (rev u) = rev u"
    by (simp add: u_def)
  show ?thesis unfolding s by (simp add: py_strip_def 1 2)
qed

lemma py_strip_nul: "CHR 0x00 \<in> set (py_strip s) \<longleftrightarrow> CHR 0x00 \<in> set s"
proof -
  have ns: "\<not> py_isspace (CHR 0x00)" by (simp add: py_isspace_def)
  have keep: "x \<in> set xs \<Longrightarrow> \<not> P x \<Longrightarrow> x \<in> set (dropWhile P xs)" for x :: char and xs P
    by (induction xs) auto
  have "CHR 0x00 \<in> set s \<Longrightarrow> CHR 0x00 \<in> set (py_strip s)"
    using keep[of "CHR 0x00" s py_isspace, OF _ ns]
      keep[of "CHR 0x00" "rev (dropWhile py_isspace s)" py_isspace, OF _ ns]
    by (simp add: py_strip_def)
  moreover have "CHR 0x00 \<in> set (py_strip s) \<Longrightarrow> CHR 0x00 \<in> set s"
    by (auto simp add: py_strip_def dest!: set_dropWhileD)
  ultimately show ?thesis by blast
qed

text \<open>\<open>replace\<close> finds no double colon in printed groups or in a dotted quad.\<close>

lemma py_replace_Nil [simp]: "py_replace old new [] = []"
  by (simp add: py_replace.simps)

lemma py_replace_prefix: "old \<noteq> [] \<Longrightarrow> py_replace old new (old @ s) = new @ py_replace old new s"
  by (subst py_replace.simps) (simp add: py_startswith_def)

lemma py_replace_skip:
  "c \<noteq> CHR '':'' \<Longrightarrow> py_replace (CHR '':'' # old) new (c # s) = c # py_replace (CHR '':'' # old) new s"
  by (subst py_replace.simps) (simp add: py_startswith_def)

lemma py_replace_skip_colon:
  "c \<noteq> CHR '':'' \<Longrightarrow>
   py_replace (CHR '':'' # CHR '':'' # old) new (CHR '':'' # c # s) =
   CHR '':'' # py_replace (CHR '':'' # CHR '':'' # old) new (c # s)"
  by (subst py_replace.simps) (simp add: py_startswith_def)

lemma py_replace_skip_all:
  "\<forall>c\<in>set u. c \<noteq> CHR '':'' \<Longrightarrow>
   py_replace (CHR '':'' # old) new (u @ s) = u @ py_replace (CHR '':'' # old) new s"
  by (induction u) (simp_all add: py_replace_skip)

lemma fmt_x_no_colon: "\<forall>c\<in>set (fmt_x w). c \<noteq> CHR '':''"
  using fmt_x_hex_char hex_char_props(1) by blast

lemma py_replace_colon_groups:
  "py_replace (CHR '':'' # CHR '':'' # old) new (colon_groups ws) = colon_groups ws"
proof (induction ws)
  case Nil
  then show ?case by simp
next
  case (Cons w ws)
  obtain d cs where f: "fmt_x w = d # cs" using fmt_x_nonempty[of w] by (cases "fmt_x w") auto
  have d: "d \<noteq> CHR '':''" and cs: "\<forall>c\<in>set cs. c \<noteq> CHR '':''"
    using fmt_x_no_colon[of w] f by auto
  have "py_replace (CHR '':'' # CHR '':'' # old) new (CHR '':'' # d # cs @ colon_groups ws) =
        CHR '':'' # py_replace (CHR '':'' # CHR '':'' # old) new (d # cs @ colon_groups ws)"
    using d by (rule py_replace_skip_colon)
  also have "\<dots> = CHR '':'' # d # py_replace (CHR '':'' # CHR '':'' # old) new (cs @ colon_groups ws)"
    using d by (simp add: py_replace_skip)
  also have "\<dots> = CHR '':'' # d # cs @ py_replace (CHR '':'' # CHR '':'' # old) new (colon_groups ws)"
    using cs by (simp add: py_replace_skip_all)
  finally show ?case using Cons.IH f by simp
qed

lemma py_replace_join_groups:
  "py_replace (CHR '':'' # CHR '':'' # old) new (join_groups ws) = join_groups ws"
proof (cases ws)
  case Nil
  then show ?thesis by (simp add: join_groups_def)
next
  case (Cons w ws')
  then show ?thesis
    using py_replace_skip_all[OF fmt_x_no_colon, where w1=w and old="CHR '':'' # old" and new=new and s="colon_groups ws'"]
    by (simp add: join_groups_Cons py_replace_colon_groups)
qed

lemma py_replace_ntop4:
  "py_replace (CHR '':'' # old) new (inet_ntop4 t) = inet_ntop4 t"
proof -
  have "\<forall>c\<in>set (inet_ntop4 t). c \<noteq> CHR '':''" using inet_ntop4_no_colon[of t] by auto
  from py_replace_skip_all[OF this, of old new "[]"] show ?thesis by simp
qed

subsection \<open>The forms of a printed IPv6 address\<close>

lemma list_of_length_1: "length xs = 1 \<Longrightarrow> \<exists>a. xs = [a]"
  by (auto simp add: length_Suc_conv)

lemma fmt_u_Cons: "\<exists>d cs. d < 10 \<and> fmt_u n = digit_char d # cs"
proof (induction n rule: fmt_u.induct)
  case (1 n)
  show ?case
  proof (cases "n < 10")
    case True
    then show ?thesis by (auto simp add: fmt_u_digit)
  next
    case False
    then obtain d cs where "d < 10" "fmt_u (n div 10) = digit_char d # cs"
      using "1.IH" by blast
    then show ?thesis using False by (subst fmt_u.simps) auto
  qed
qed

lemma digit_char_f: "d < 10 \<Longrightarrow> digit_char d \<noteq> CHR ''f''"
  by (simp add: digit_char_def char_of_eq_iff take_bit_eq_mod)

lemma join_groups_not_colon_start:
  "ws \<noteq> [] \<Longrightarrow> \<exists>c cs. join_groups ws @ X = c # cs \<and> c \<noteq> CHR '':''"
proof -
  assume "ws \<noteq> []"
  then obtain w ws' where ws: "ws = w # ws'" by (cases ws) auto
  obtain d cs where f: "fmt_x w = d # cs" using fmt_x_nonempty[of w] by (cases "fmt_x w") auto
  have "d \<noteq> CHR '':''" using fmt_x_no_colon[of w] f by auto
  then show ?thesis using ws f by (simp add: join_groups_Cons)
qed

lemma mapped_prefix_groups:
  assumes "p < 65536" "take 5 (fmt_x p @ colon_groups post) = ''ffff:''"
  shows "fmt_x p = ''ffff'' \<and> post \<noteq> []"
proof -
  have l: "length (fmt_x p) \<le> 4" using length_fmt_x[of p 4] assms(1) by simp
  have nc: "\<forall>c\<in>set (fmt_x p). c \<noteq> CHR '':''" by (rule fmt_x_no_colon)
  have cg: "post \<noteq> [] \<Longrightarrow> \<exists>X. colon_groups post = CHR '':'' # X"
    by (cases post) auto
  consider "length (fmt_x p) = 1" | "length (fmt_x p) = 2" | "length (fmt_x p) = 3" | "length (fmt_x p) = 4"
    using l fmt_x_nonempty[of p] by (cases "fmt_x p") (auto simp add: le_Suc_eq eval_nat_numeral)
  then show ?thesis
  proof cases
    case 1
    then obtain a where f: "fmt_x p = [a]" using list_of_length_1 by blast
    show ?thesis using assms(2) cg by (cases "post = []") (auto simp add: f)
  next
    case 2
    then obtain a b where f: "fmt_x p = [a, b]" using list_of_length_2 by blast
    show ?thesis using assms(2) cg by (cases "post = []") (auto simp add: f)
  next
    case 3
    then obtain a b c where f: "fmt_x p = [a, b, c]" using list_of_length_3 by blast
    show ?thesis using assms(2) cg by (cases "post = []") (auto simp add: f)
  next
    case 4
    then obtain a b c d where f: "fmt_x p = [a, b, c, d]" using list_of_length_4 by blast
    show ?thesis using assms(2) by (cases "post = []") (auto simp add: f)
  qed
qed

text \<open>The four forms of the printed text of a packed IPv6 address.\<close>

lemma inet_ntop6_forms:
  assumes "valid_packed 16 src"
  shows "(\<exists>ws. length ws = 8 \<and> (\<forall>w\<in>set ws. w < 65536) \<and> inet_ntop6 src = join_groups ws)
       \<or> (\<exists>pre post. length pre + length post \<le> 6 \<and> (\<forall>w\<in>set post. w < 65536) \<and>
             inet_ntop6 src = join_groups pre @ ''::'' @ join_groups post)
       \<or> (\<exists>t. valid_packed 4 t \<and> inet_ntop6 src = ''::'' @ inet_ntop4 t)
       \<or> (\<exists>t. valid_packed 4 t \<and> inet_ntop6 src = ''::ffff:'' @ inet_ntop4 t)"
proof -
  let ?ws = "to_words src"
  have len: "length src = 16" and bnd: "\<forall>x\<in>set src. x < 256"
    using assms by (auto simp add: valid_packed_def list_all_iff)
  have w: "length ?ws = 8" "\<forall>w\<in>set ?ws. w < 65536"
    using to_words_props[of src] len bnd by auto
  show ?thesis
  proof (cases "best_run ?ws")
    case None
    have "?ws \<noteq> []" using w(1) by auto
    then have "inet_ntop6 src = join_groups ?ws" using None by (rule inet_ntop6_plain[rotated])
    then show ?thesis using w by blast
  next
    case (Some r)
    obtain b l where r: "r = (b, l)" by (cases r)
    note best = Some[unfolded r]
    note p = best_run_props[OF best]
    show ?thesis
    proof (cases "is_encapsulated ?ws (Some (b, l))")
      case False
      let ?pre = "take b ?ws" and ?post = "drop (b + l) ?ws"
      have "inet_ntop6 src = join_groups ?pre @ ''::'' @ join_groups ?post"
        using best False w(1) by (rule inet_ntop6_compressed)
      moreover have "\<forall>w\<in>set ?post. w < 65536"
        using w(2) by (auto dest: in_set_dropD)
      moreover have "length ?pre + length ?post \<le> 6"
        using p(1,2) w(1) by auto
      ultimately show ?thesis by blast
    next
      case True
      let ?t = "drop 12 src"
      have "valid_packed 4 ?t"
        using len bnd by (auto simp add: valid_packed_def list_all_iff dest: in_set_dropD)
      moreover have "inet_ntop6 src = (if l = 5 then ''::ffff:'' else ''::'') @ inet_ntop4 ?t"
        using best True w(1) by (rule inet_ntop6_encapsulated)
      ultimately show ?thesis by (cases "l = 5") auto
    qed
  qed
qed

subsection \<open>Normalization\<close>

lemma valid_packed_pton4: "inet_pton4 s = Some b \<Longrightarrow> valid_packed 4 b"
  using inet_pton4_sound(1,2)[of s b] by (simp add: valid_packed_def list_all_iff)

lemma valid_packed_pton6: "inet_pton6 s = Some b \<Longrightarrow> valid_packed 16 b"
  using inet_pton6_sound[of s b] by (simp add: valid_packed_def list_all_iff)

lemma ntop_of_pton_inet:
  "ntop_of_pton AF_INET ip =
     (if CHR 0x00 \<in> set ip then Inl ValueError
      else case inet_pton4 ip of None \<Rightarrow> Inl SocketError | Some b \<Rightarrow> Inr ip)"
  using inet_pton4_sound(1,3)[of ip]
  by (auto simp add: ntop_of_pton_def socket_inet_pton_def socket_inet_ntop_def split: option.splits)

lemma ntop_of_pton_inet6:
  "ntop_of_pton AF_INET6 ip =
     (if CHR 0x00 \<in> set ip then Inl ValueError
      else case inet_pton6 ip of None \<Rightarrow> Inl SocketError | Some b \<Rightarrow> Inr (inet_ntop6 b))"
  using inet_pton6_sound(1)[of ip]
  by (auto simp add: ntop_of_pton_def socket_inet_pton_def socket_inet_ntop_def split: option.splits)

lemma inet_pton4_Nil: "inet_pton4 [] = None"
  by (simp add: inet_pton4_def)

lemma join_groups_nonempty: "ws \<noteq> [] \<Longrightarrow> join_groups ws \<noteq> []"
  by (cases ws) (simp_all add: join_groups_def)

lemma inet_ntop6_chars:
  assumes "valid_packed 16 src" "c \<in> set (inet_ntop6 src)"
  shows "addr_char c"
proof -
  have "digit_char 15 = CHR ''f''" by (simp add: digit_char_def char_of_eq_iff)
  then have f: "hex_char CHR ''f''"
    unfolding hex_char_def by (intro exI[of _ 15]) simp
  from inet_ntop6_forms[OF assms(1)] consider
      (plain) ws where "inet_ntop6 src = join_groups ws"
    | (compressed) pre post where "inet_ntop6 src = join_groups pre @ ''::'' @ join_groups post"
    | (compat) t where "inet_ntop6 src = ''::'' @ inet_ntop4 t"
    | (mapped) t where "inet_ntop6 src = ''::ffff:'' @ inet_ntop4 t"
    by blast
  then show ?thesis
  proof cases
    case plain
    then show ?thesis using assms(2) join_groups_chars by (auto simp add: addr_char_def)
  next
    case compressed
    then have "c \<in> set (join_groups pre) \<or> c = CHR '':'' \<or> c \<in> set (join_groups post)"
      using assms(2) by auto
    then show ?thesis using join_groups_chars by (auto simp add: addr_char_def)
  next
    case compat
    then have "c = CHR '':'' \<or> c \<in> set (inet_ntop4 t)"
      using assms(2) by auto
    then show ?thesis using inet_ntop4_chars by (auto simp add: addr_char_def)
  next
    case mapped
    then have "c = CHR '':'' \<or> c = CHR ''f'' \<or> c \<in> set (inet_ntop4 t)"
      using assms(2) by auto
    then show ?thesis using inet_ntop4_chars f by (auto simp add: addr_char_def)
  qed
qed

lemma inet_ntop6_has_colon:
  assumes "valid_packed 16 src"
  shows "CHR '':'' \<in> set (inet_ntop6 src)"
proof -
  have "length ws = 8 \<Longrightarrow> CHR '':'' \<in> set (join_groups ws)" for ws
  proof -
    assume "length ws = 8"
    then obtain w v ws' where "ws = w # v # ws'"
      by (cases ws; cases "tl ws") auto
    then show ?thesis by (simp add: join_groups_Cons)
  qed
  then show ?thesis using inet_ntop6_forms[OF assms] by auto
qed

lemma inet_ntop6_nonempty: "valid_packed 16 src \<Longrightarrow> inet_ntop6 src \<noteq> []"
  using inet_ntop6_has_colon[of src] by auto

text \<open>What \<open>cleanup_ip\<close> computes: the legacy branch is never entered.\<close>

lemma cleanup_ip_eq:
  "cleanup_ip sock s =
     (let ip = py_strip s in
      if CHR 0x00 \<in> set ip then Inl ValueError
      else case inet_pton4 ip of
             Some b \<Rightarrow> Inr ip
           | None \<Rightarrow> (case inet_pton6 ip of
                        Some b \<Rightarrow> Inr (unmapped (inet_ntop6 b))
                      | None \<Rightarrow> Inr ip))"
proof -
  define ip where "ip = py_strip s"
  show ?thesis
  proof (cases "CHR 0x00 \<in> set ip")
    case True
    then show ?thesis
      by (simp add: cleanup_ip_def cleanup_ip_v4_def ntop_of_pton_inet Let_def ip_def[symmetric])
  next
    case False
    note nn = this
    show ?thesis
    proof (cases "inet_pton4 ip")
      case (Some b)
      then have "ip \<noteq> []" using inet_pton4_Nil by auto
      then show ?thesis using Some nn
        by (simp add: cleanup_ip_def cleanup_ip_v4_def ntop_of_pton_inet Let_def ip_def[symmetric]
            py_not_def py_or_def)
    next
      case None
      note n4 = this
      show ?thesis
      proof (cases "inet_pton6 ip")
        case None
        then show ?thesis using n4 nn
          by (simp add: cleanup_ip_def cleanup_ip_v4_def ntop_of_pton_inet ntop_of_pton_inet6
              Let_def ip_def[symmetric] py_not_def py_or_def)
      next
        case (Some b)
        then have "inet_ntop6 b \<noteq> []"
          using inet_ntop6_nonempty valid_packed_pton6 by blast
        then show ?thesis using Some n4 nn
          by (simp add: cleanup_ip_def cleanup_ip_v4_def ntop_of_pton_inet ntop_of_pton_inet6
              Let_def ip_def[symmetric] py_not_def py_or_def unmapped_def)
      qed
    qed
  qed
qed

lemma cleanup_ip_strip: "cleanup_ip sock (py_strip s) = cleanup_ip sock s"
  by (simp add: cleanup_ip_eq py_strip_idem)

lemma cleanup_ip_plain:
  assumes "\<forall>c\<in>set s. addr_char c"
  shows "cleanup_ip sock s =
     (case inet_pton4 s of
        Some b \<Rightarrow> Inr s
      | None \<Rightarrow> (case inet_pton6 s of
                   Some b \<Rightarrow> Inr (unmapped (inet_ntop6 b))
                 | None \<Rightarrow> Inr s))"
proof -
  have "py_strip s = s" using assms addr_char_props(2) by (intro py_strip_no_space) blast
  moreover have "CHR 0x00 \<notin> set s" using assms addr_char_props(1) by blast
  ultimately show ?thesis by (simp add: cleanup_ip_eq)
qed

lemma cleanup_ip_ntop4:
  assumes "valid_packed 4 t"
  shows "cleanup_ip sock (inet_ntop4 t) = Inr (inet_ntop4 t)"
proof -
  have "inet_pton4 (inet_ntop4 t) = Some t"
    using assms by (intro inet_pton4_of_ntop4) (auto simp add: valid_packed_def list_all_iff)
  moreover have "\<forall>c\<in>set (inet_ntop4 t). addr_char c"
    using inet_ntop4_chars by (auto simp add: addr_char_def)
  ultimately show ?thesis by (simp add: cleanup_ip_plain)
qed

lemma cleanup_ip_ntop6:
  assumes "valid_packed 16 src"
  shows "cleanup_ip sock (inet_ntop6 src) = Inr (unmapped (inet_ntop6 src))"
proof -
  have "inet_pton6 (inet_ntop6 src) = Some src"
    using assms by (intro inet_pton6_of_ntop6) (auto simp add: valid_packed_def list_all_iff)
  moreover have "inet_pton4 (inet_ntop6 src) = None"
    using inet_ntop6_has_colon[OF assms] by (rule inet_pton4_colon)
  moreover have "\<forall>c\<in>set (inet_ntop6 src). addr_char c"
    using inet_ntop6_chars[OF assms] by blast
  ultimately show ?thesis by (simp add: cleanup_ip_plain)
qed

lemma inet_pton6_few_groups:
  assumes "\<forall>w\<in>set ws. w < 65536" "ws \<noteq> []" "length ws < 8"
  shows "inet_pton6 (join_groups ws) = None"
proof -
  obtain w ws' where ws: "ws = w # ws'" using assms(2) by (cases ws) auto
  have "inet_pton6 (join_groups ws) = inet_pton6_loop (join_groups ws) (join_groups ws) [] None 0 0"
    using inet_pton6_start_digit[of w "colon_groups ws'"] assms(1) ws by (simp add: join_groups_def)
  also have "\<dots> = inet_pton6_finish ([] @ bytes_of ws) None 0 0"
    using assms by (intro inet_pton6_loop_join_groups) auto
  finally show ?thesis using assms(3) by (simp add: inet_pton6_finish_def)
qed

lemma cleanup_ip_few_groups:
  assumes "\<forall>w\<in>set ws. w < 65536" "ws \<noteq> []" "length ws < 8"
  shows "cleanup_ip sock (join_groups ws) = Inr (join_groups ws)"
proof -
  have "inet_pton6 (join_groups ws) = None" using assms by (rule inet_pton6_few_groups)
  moreover have "inet_pton4 (join_groups ws) = None"
    using join_groups_no_dot by (rule inet_pton4_no_dot)
  moreover have "\<forall>c\<in>set (join_groups ws). addr_char c"
    using join_groups_chars by (auto simp add: addr_char_def)
  ultimately show ?thesis by (simp add: cleanup_ip_plain)
qed

text \<open>The printed forms that begin with the prefix of a mapped address.\<close>

lemma mapped_prefix_form:
  assumes v: "valid_packed 16 src" and st: "py_startswith (inet_ntop6 src) ''::ffff:''"
  shows "(\<exists>post. post \<noteq> [] \<and> length post < 8 \<and> (\<forall>w\<in>set post. w < 65536) \<and>
            inet_ntop6 src = ''::ffff:'' @ join_groups post)
       \<or> (\<exists>t. valid_packed 4 t \<and> inet_ntop6 src = ''::ffff:'' @ inet_ntop4 t)"
proof -
  have st: "take 7 (inet_ntop6 src) = ''::ffff:''"
    using st by (simp add: py_startswith_def eval_nat_numeral)
  from inet_ntop6_forms[OF v] consider
      (plain) ws where "length ws = 8" "inet_ntop6 src = join_groups ws"
    | (compressed) pre post where "length pre + length post \<le> 6" "\<forall>w\<in>set post. w < 65536"
        "inet_ntop6 src = join_groups pre @ ''::'' @ join_groups post"
    | (compat) t where "valid_packed 4 t" "inet_ntop6 src = ''::'' @ inet_ntop4 t"
    | (mapped) t where "valid_packed 4 t" "inet_ntop6 src = ''::ffff:'' @ inet_ntop4 t"
    by blast
  then show ?thesis
  proof cases
    case plain
    then have "ws \<noteq> []" by auto
    from join_groups_not_colon_start[OF this, of "[]"]
    obtain c cs where "join_groups ws = c # cs" "c \<noteq> CHR '':''" by auto
    then have False using st plain(2) by simp
    then show ?thesis ..
  next
    case compressed
    show ?thesis
    proof (cases "pre = []")
      case False
      from join_groups_not_colon_start[OF this, of "''::'' @ join_groups post"]
      obtain c cs where "join_groups pre @ ''::'' @ join_groups post = c # cs" "c \<noteq> CHR '':''"
        by auto
      then have False using st compressed(3) by simp
      then show ?thesis ..
    next
      case True
      note pre = this
      show ?thesis
      proof (cases post)
        case Nil
        then show ?thesis using st compressed(3) pre by (simp add: join_groups_def)
      next
        case (Cons p post')
        have p: "p < 65536" using compressed(2) Cons by simp
        have "take 5 (fmt_x p @ colon_groups post') = ''ffff:''"
          using st compressed(3) pre Cons by (simp add: join_groups_def)
        from mapped_prefix_groups[OF p this] have f: "fmt_x p = ''ffff''" and ne: "post' \<noteq> []"
          by simp_all
        have "inet_ntop6 src = ''::ffff:'' @ join_groups post'"
          using compressed(3) pre Cons f ne by (simp add: join_groups_def colon_groups_join)
        moreover have "\<forall>w\<in>set post'. w < 65536" "length post' < 8"
          using compressed(1,2) Cons by auto
        ultimately show ?thesis using ne by blast
      qed
    qed
  next
    case compat
    obtain d cs where "d < 10" "fmt_u (t ! 0) = digit_char d # cs"
      using fmt_u_Cons by blast
    then show ?thesis using st compat(2) digit_char_f[of d] by (simp add: inet_ntop4_def)
  next
    case mapped
    then show ?thesis by blast
  qed
qed

lemma py_replace_mapped_prefix:
  assumes "py_replace ''::ffff:'' [] r = r"
  shows "py_replace ''::ffff:'' [] (''::ffff:'' @ r) = r"
proof -
  have "py_replace ''::ffff:'' [] (''::ffff:'' @ r) = [] @ py_replace ''::ffff:'' [] r"
    by (rule py_replace_prefix) simp
  then show ?thesis using assms by simp
qed

text \<open>With the prefix, \<open>replace\<close> removes the first seven characters and nothing else.\<close>

lemma unmapped_ntop6:
  assumes v: "valid_packed 16 src"
  shows "unmapped (inet_ntop6 src) =
     (if py_startswith (inet_ntop6 src) ''::ffff:'' then drop 7 (inet_ntop6 src) else inet_ntop6 src)"
proof (cases "py_startswith (inet_ntop6 src) ''::ffff:''")
  case False
  then show ?thesis by (simp add: unmapped_def)
next
  case True
  from mapped_prefix_form[OF v True] obtain r
    where r: "inet_ntop6 src = ''::ffff:'' @ r" "py_replace ''::ffff:'' [] r = r"
    using py_replace_join_groups[of "''ffff:''" "[]"] py_replace_ntop4[of "'':ffff:''" "[]"]
    by auto
  have "unmapped (inet_ntop6 src) = py_replace ''::ffff:'' [] (inet_ntop6 src)"
    using True by (simp add: unmapped_def)
  also have "\<dots> = py_replace ''::ffff:'' [] (''::ffff:'' @ r)" by (simp only: r(1))
  also have "\<dots> = r" using r(2) by (rule py_replace_mapped_prefix)
  finally show ?thesis using True r(1) by simp
qed

text \<open>The result of the IPv6 branch is left unchanged by a second pass.\<close>

lemma cleanup_ip_unmapped:
  assumes v: "valid_packed 16 src"
  shows "cleanup_ip sock (unmapped (inet_ntop6 src)) = Inr (unmapped (inet_ntop6 src))"
proof (cases "py_startswith (inet_ntop6 src) ''::ffff:''")
  case False
  then have "unmapped (inet_ntop6 src) = inet_ntop6 src" by (simp add: unmapped_def)
  then show ?thesis using cleanup_ip_ntop6[OF v] by simp
next
  case True
  from mapped_prefix_form[OF v True] consider
      (groups) post where "post \<noteq> []" "length post < 8" "\<forall>w\<in>set post. w < 65536"
        "inet_ntop6 src = ''::ffff:'' @ join_groups post"
    | (mapped) t where "valid_packed 4 t" "inet_ntop6 src = ''::ffff:'' @ inet_ntop4 t"
    by blast
  then show ?thesis
  proof cases
    case groups
    have "unmapped (inet_ntop6 src) = join_groups post"
      using unmapped_ntop6[OF v] True groups(4) by simp
    then show ?thesis using cleanup_ip_few_groups[OF groups(3,1,2)] by simp
  next
    case mapped
    have "unmapped (inet_ntop6 src) = inet_ntop4 t"
      using unmapped_ntop6[OF v] True mapped(2) by simp
    then show ?thesis using cleanup_ip_ntop4[OF mapped(1)] by simp
  qed
qed

lemma cleanup_ip_twice:
  assumes "cleanup_ip sock s' = Inr s"
  shows "cleanup_ip sock s = Inr s"
proof -
  define ip where "ip = py_strip s'"
  have nn: "CHR 0x00 \<notin> set ip"
    using assms by (auto simp add: cleanup_ip_eq Let_def ip_def split: if_splits)
  consider (v4) b where "inet_pton4 ip = Some b" "s = ip"
    | (v6) b where "inet_pton6 ip = Some b" "s = unmapped (inet_ntop6 b)"
    | (neither) "s = ip"
    using assms nn by (auto simp add: cleanup_ip_eq Let_def ip_def[symmetric] split: option.splits)
  then show ?thesis
  proof cases
    case v4
    then show ?thesis using assms cleanup_ip_strip[of sock s'] by (simp add: ip_def)
  next
    case v6
    then show ?thesis using cleanup_ip_unmapped[OF valid_packed_pton6] by simp
  next
    case neither
    then show ?thesis using assms cleanup_ip_strip[of sock s'] by (simp add: ip_def)
  qed
qed

subsection \<open>The metadata lookup; an absent candidate\<close>

lemma py_replace_underscore: "py_replace ''_'' ''-'' key = hyphenated key"
proof (induction key)
  case Nil
  then show ?case by (simp add: hyphenated_def)
next
  case (Cons c key)
  then show ?case
    by (subst py_replace.simps) (simp add: py_startswith_def hyphenated_def)
qed

text \<open>
  C9. For every metadata mapping and key, \<open>get_request_meta\<close> takes the value found
  under the key as given, else the value found under the key with every underscore
  replaced by a hyphen, else the empty string; it trims the value, and returns
  \<open>None\<close> exactly when the trimmed value is empty and the trimmed string otherwise.
\<close>

theorem get_request_meta_refines_spec:
  "get_request_meta META key = get_request_meta_spec META key \<and>
   ((get_request_meta META key = None) = (py_strip (found_value META key) = [])) \<and>
   (py_strip (found_value META key) \<noteq> [] \<longrightarrow>
      get_request_meta META key = Some (py_strip (found_value META key)))"
  by (simp add: get_request_meta_def get_request_meta_spec_def found_value_def
      py_replace_underscore Let_def)

text \<open>C9 where only the hyphenated key is present, with blanks around the value.\<close>

theorem get_request_meta_refines_spec_witness:
  "py_strip (found_value [''REMOTE-ADDR'' \<mapsto> '' 10.0.0.1 ''] ''REMOTE_ADDR'') \<noteq> [] \<and>
   get_request_meta [''REMOTE-ADDR'' \<mapsto> '' 10.0.0.1 ''] ''REMOTE_ADDR'' = Some ''10.0.0.1''"
  using get_request_meta_refines_spec [of "[''REMOTE-ADDR'' \<mapsto> '' 10.0.0.1 '']" "''REMOTE_ADDR''"]
  by (simp add: get_request_meta_spec_def found_value_def hyphenated_def py_strip_def
      py_isspace_def)

lemmas eval_pton4 = inet_pton4_def is_digit_def digit_value_def

lemmas eval_strip = py_strip_def py_isspace_def

lemmas eval_prefix = is_public_ip_def is_private_ip_def is_loopback_ip_def py_startswith_any_def
  py_startswith_def sample_defaults_def

lemma cleanup_ip_empty: "cleanup_ip sock [] = Inr []"
  by (simp add: cleanup_ip_eq eval_strip inet_pton4_def inet_pton6_def)

lemma cleanup_ip_10_0_0_1: "cleanup_ip sock ''10.0.0.1'' = Inr ''10.0.0.1''"
  by (simp add: cleanup_ip_eq eval_strip eval_pton4)

text \<open>
  C3 as stated fails: an empty \<open>last_ip\<close> is a candidate like any other. The empty
  string starts with no configured prefix, so it is public, and it is kept when the next
  candidate is not public.
\<close>

theorem get_best_ip_empty_last_counterexample:
  "get_best_ip sample_defaults sample_legacy (Some []) ''10.0.0.1'' = Inr [] \<and>
   get_best_ip sample_defaults sample_legacy (Some []) ''10.0.0.1'' \<noteq> Inr ''10.0.0.1''"
  by (simp add: get_best_ip_def cleanup_ip_empty cleanup_ip_10_0_0_1 eval_prefix)

text \<open>
  C3, amended. When \<open>last_ip\<close> is \<open>None\<close>, \<open>get_best_ip\<close> returns \<open>next_ip\<close>
  unconditionally. An empty \<open>last_ip\<close> is not absent: whenever \<open>next_ip\<close> normalizes to
  \<open>clean_next_ip\<close>, the empty string is kept if it is public and \<open>clean_next_ip\<close> is not,
  or if it is private and \<open>clean_next_ip\<close> is loopback, and \<open>next_ip\<close> is returned
  otherwise.
\<close>

theorem get_best_ip_absent_last:
  "get_best_ip defs sock None next_ip = Inr next_ip \<and>
   (cleanup_ip sock next_ip = Inr clean_next_ip \<longrightarrow>
      get_best_ip defs sock (Some []) next_ip =
        Inr (if (is_public_ip defs [] \<and> \<not> is_public_ip defs clean_next_ip) \<or>
                (is_private_ip defs [] \<and> is_loopback_ip defs clean_next_ip)
             then [] else next_ip))"
  by (simp add: get_best_ip_def cleanup_ip_empty)

text \<open>The amended C3 at \<open>next_ip = "10.0.0.1"\<close> under the sample configuration.\<close>

theorem get_best_ip_absent_last_witness:
  "get_best_ip sample_defaults sample_legacy None ''10.0.0.1'' = Inr ''10.0.0.1'' \<and>
   cleanup_ip sample_legacy ''10.0.0.1'' = Inr ''10.0.0.1'' \<and>
   get_best_ip sample_defaults sample_legacy (Some []) ''10.0.0.1'' = Inr []"
  using get_best_ip_absent_last [of sample_defaults sample_legacy "''10.0.0.1''" "''10.0.0.1''"]
  by (simp add: cleanup_ip_10_0_0_1 eval_prefix)

subsection \<open>Normalization and validity in the words of the spec\<close>

lemmas eval_ntop = inet_ntop6_def inet_ntop4_def best_run_def better_run_def in_best_def
  is_encapsulated_def fmt_x.simps fmt_u.simps digit_char_def char_of_eq_iff Let_def

lemma inet_ntop6_mapped_text:
  "inet_ntop6 [0, 0, 0, 0, 0, 0, 0, 0, 0, 0, 255, 255, 192, 168, 1, 1] = ''::ffff:192.168.1.1''"
  by (simp add: eval_ntop)

lemma valid_packed_mapped: "valid_packed 16 [0, 0, 0, 0, 0, 0, 0, 0, 0, 0, 255, 255, 192, 168, 1, 1]"
  by (simp add: valid_packed_def)

lemma inet_pton6_mapped_text:
  "inet_pton6 ''::ffff:192.168.1.1'' = Some [0, 0, 0, 0, 0, 0, 0, 0, 0, 0, 255, 255, 192, 168, 1, 1]"
proof -
  have "inet_pton6 (inet_ntop6 [0, 0, 0, 0, 0, 0, 0, 0, 0, 0, 255, 255, 192, 168, 1, 1]) =
        Some [0, 0, 0, 0, 0, 0, 0, 0, 0, 0, 255, 255, 192, 168, 1, 1]"
    by (rule inet_pton6_of_ntop6) simp_all
  then show ?thesis by (simp only: inet_ntop6_mapped_text)
qed

lemma unmapped_mapped_text: "unmapped ''::ffff:192.168.1.1'' = ''192.168.1.1''"
  using unmapped_ntop6[OF valid_packed_mapped, unfolded inet_ntop6_mapped_text]
  by (simp add: py_startswith_def)

lemma cleanup_ip_mapped_text: "cleanup_ip sock ''::ffff:192.168.1.1'' = Inr ''192.168.1.1''"
proof -
  have "inet_pton4 ''::ffff:192.168.1.1'' = None"
    by (rule inet_pton4_colon) simp
  then have "cleanup_ip sock ''::ffff:192.168.1.1'' =
      Inr (unmapped (inet_ntop6 [0, 0, 0, 0, 0, 0, 0, 0, 0, 0, 255, 255, 192, 168, 1, 1]))"
    by (simp add: cleanup_ip_eq eval_strip inet_pton6_mapped_text)
  then show ?thesis
    by (simp only: inet_ntop6_mapped_text unmapped_mapped_text)
qed

text \<open>Without the null character, \<open>cleanup_ip\<close> is the function of the spec.\<close>

lemma cleanup_ip_refines_spec:
  assumes "CHR 0x00 \<notin> set s"
  shows "cleanup_ip sock s = Inr (cleanup_ip_spec s)"
proof -
  define ip where "ip = py_strip s"
  have nn: "CHR 0x00 \<notin> set ip" using assms py_strip_nul by (simp add: ip_def)
  show ?thesis
  proof (cases "inet_pton4 ip")
    case (Some b)
    then have "inet_ntop4 b = ip" by (rule inet_pton4_sound(3))
    then show ?thesis using Some nn
      by (simp add: cleanup_ip_eq cleanup_ip_spec_def Let_def ip_def[symmetric])
  next
    case None
    note n4 = this
    show ?thesis
    proof (cases "inet_pton6 ip")
      case None
      then show ?thesis using n4 nn
        by (simp add: cleanup_ip_eq cleanup_ip_spec_def Let_def ip_def[symmetric])
    next
      case (Some b)
      then have "valid_packed 16 b" by (rule valid_packed_pton6)
      then show ?thesis using Some n4 nn
        by (simp add: cleanup_ip_eq cleanup_ip_spec_def Let_def ip_def[symmetric] unmapped_ntop6)
    qed
  qed
qed

lemma cleanup_ip_raises:
  "cleanup_ip sock s = (if CHR 0x00 \<in> set s then Inl ValueError else Inr (cleanup_ip_spec s))"
proof (cases "CHR 0x00 \<in> set s")
  case True
  then have "CHR 0x00 \<in> set (py_strip s)" using py_strip_nul by simp
  then show ?thesis using True by (simp add: cleanup_ip_eq)
next
  case False
  then show ?thesis by (simp add: cleanup_ip_refines_spec)
qed

text \<open>The validity tests in closed form.\<close>

lemma is_valid_ipv4_eq:
  "is_valid_ipv4 sock s = (if CHR 0x00 \<in> set s then Inl ValueError else Inr (inet_pton4 s \<noteq> None))"
  by (cases "inet_pton4 s") (simp_all add: is_valid_ipv4_def socket_inet_pton_def)

lemma is_valid_ipv6_eq:
  "is_valid_ipv6 s = (if CHR 0x00 \<in> set s then Inl ValueError else Inr (inet_pton6 s \<noteq> None))"
  by (cases "inet_pton6 s") (simp_all add: is_valid_ipv6_def socket_inet_pton_def)

lemma is_valid_ip_eq:
  "is_valid_ip sock s = (if CHR 0x00 \<in> set s then Inl ValueError else Inr (parses_as_ip s))"
  by (cases "inet_pton4 s"; cases "inet_pton6 s")
    (simp_all add: is_valid_ip_def is_valid_ipv4_eq is_valid_ipv6_eq parses_as_ip_def)

lemma filter_dot_fmt_u: "filter (\<lambda>x. x = CHR ''.'') (fmt_u n) = []"
  using fmt_u_hex_char hex_char_props(2) by (auto simp add: filter_empty_conv)

lemma py_count_ntop4: "py_count (inet_ntop4 b) CHR ''.'' = 3"
  by (simp add: py_count_def inet_ntop4_def filter_dot_fmt_u)

lemma inet_ntop4_no_nul: "CHR 0x00 \<notin> set (inet_ntop4 b)"
  using inet_ntop4_chars[of "CHR 0x00" b] hex_char_props(3) by auto

lemma is_valid_ipv4_iff:
  "(is_valid_ipv4 sock s = Inr True) = (\<exists>b. valid_packed 4 b \<and> s = inet_ntop4 b)"
proof
  assume "is_valid_ipv4 sock s = Inr True"
  then obtain b where "inet_pton4 s = Some b"
    by (auto simp add: is_valid_ipv4_eq split: if_splits)
  then show "\<exists>b. valid_packed 4 b \<and> s = inet_ntop4 b"
    using valid_packed_pton4 inet_pton4_sound(3) by metis
next
  assume "\<exists>b. valid_packed 4 b \<and> s = inet_ntop4 b"
  then obtain b where b: "valid_packed 4 b" "s = inet_ntop4 b" by blast
  then have "inet_pton4 s = Some b"
    using inet_pton4_of_ntop4[of b] by (simp add: valid_packed_def list_all_iff)
  then show "is_valid_ipv4 sock s = Inr True"
    using b(2) inet_ntop4_no_nul by (simp add: is_valid_ipv4_eq)
qed

lemma is_valid_ipv4_127_1: "is_valid_ipv4 sock ''127.1'' = Inr False"
  by (simp add: is_valid_ipv4_eq eval_pton4)

lemma is_valid_ipv4_203: "is_valid_ipv4 sock ''203.0.113.5'' = Inr True"
  by (simp add: is_valid_ipv4_eq eval_pton4)

subsection \<open>Idempotence; strict dotted quads\<close>

text \<open>
  C5. Normalization is idempotent on normalized addresses: if \<open>cleanup_ip\<close> returned
  \<open>s\<close> for some input, then \<open>cleanup_ip\<close> of \<open>s\<close> returns \<open>s\<close>; and so it does on the
  two canonical forms of a normalized address, the dotted-decimal text of any four bytes
  and the colon-hex text of any sixteen bytes with the mapped prefix stripped.
\<close>

theorem cleanup_ip_idempotent:
  "(cleanup_ip sock s' = Inr s \<longrightarrow> cleanup_ip sock s = Inr s) \<and>
   (valid_packed 4 b4 \<longrightarrow> cleanup_ip sock (inet_ntop4 b4) = Inr (inet_ntop4 b4)) \<and>
   (valid_packed 16 b6 \<longrightarrow>
      cleanup_ip sock (unmapped (inet_ntop6 b6)) = Inr (unmapped (inet_ntop6 b6)))"
  using cleanup_ip_twice cleanup_ip_ntop4 cleanup_ip_unmapped by blast

text \<open>C5 at the mapped address \<open>::ffff:192.168.1.1\<close> and its bytes.\<close>

theorem cleanup_ip_idempotent_witness:
  "cleanup_ip sample_legacy ''::ffff:192.168.1.1'' = Inr ''192.168.1.1'' \<and>
   cleanup_ip sample_legacy ''192.168.1.1'' = Inr ''192.168.1.1'' \<and>
   valid_packed 4 [192, 168, 1, 1] \<and>
   cleanup_ip sample_legacy (inet_ntop4 [192, 168, 1, 1]) = Inr (inet_ntop4 [192, 168, 1, 1]) \<and>
   valid_packed 16 [0, 0, 0, 0, 0, 0, 0, 0, 0, 0, 255, 255, 192, 168, 1, 1] \<and>
   cleanup_ip sample_legacy (unmapped (inet_ntop6 [0, 0, 0, 0, 0, 0, 0, 0, 0, 0, 255, 255, 192, 168, 1, 1])) =
     Inr (unmapped (inet_ntop6 [0, 0, 0, 0, 0, 0, 0, 0, 0, 0, 255, 255, 192, 168, 1, 1]))"
  using cleanup_ip_idempotent [of sample_legacy "''::ffff:192.168.1.1''" "''192.168.1.1''"
      "[192, 168, 1, 1]" "[0, 0, 0, 0, 0, 0, 0, 0, 0, 0, 255, 255, 192, 168, 1, 1]"]
    cleanup_ip_mapped_text [of sample_legacy]
  by (simp add: valid_packed_def)

text \<open>
  C7. \<open>is_valid_ipv4\<close> accepts exactly the strict dotted quads, the texts
  \<open>"%u.%u.%u.%u"\<close> of four bytes; an accepted text has exactly three dots, and the
  shorthand \<open>127.1\<close> is rejected.
\<close>

theorem is_valid_ipv4_strict:
  "((is_valid_ipv4 sock s = Inr True) = (\<exists>b. valid_packed 4 b \<and> s = inet_ntop4 b)) \<and>
   (is_valid_ipv4 sock s = Inr True \<longrightarrow> py_count s CHR ''.'' = 3) \<and>
   is_valid_ipv4 sock ''127.1'' = Inr False"
  using is_valid_ipv4_iff [of sock s] py_count_ntop4 is_valid_ipv4_127_1 by auto

text \<open>C7 at \<open>203.0.113.5\<close>.\<close>

theorem is_valid_ipv4_strict_witness:
  "is_valid_ipv4 sample_legacy ''203.0.113.5'' = Inr True \<and>
   py_count ''203.0.113.5'' CHR ''.'' = 3 \<and>
   is_valid_ipv4 sample_legacy ''127.1'' = Inr False"
  using is_valid_ipv4_strict [of sample_legacy "''203.0.113.5''"]
    is_valid_ipv4_203 [of sample_legacy]
  by simp

subsection \<open>The functions in closed form\<close>

lemma collect_ips_tokens:
  "collect_ips fs ip_list =
     ip_list @ filter (\<lambda>t. t \<noteq> []) (map (\<lambda>t. py_lower (py_strip t)) fs)"
  by (induction fs arbitrary: ip_list) (simp_all add: Let_def)

lemma cleanup_ip_spec_no_nul:
  assumes "CHR 0x00 \<notin> set s"
  shows "CHR 0x00 \<notin> set (cleanup_ip_spec s)"
proof
  assume n: "CHR 0x00 \<in> set (cleanup_ip_spec s)"
  have "cleanup_ip sample_legacy s = Inr (cleanup_ip_spec s)"
    using assms by (rule cleanup_ip_refines_spec)
  then have "cleanup_ip sample_legacy (cleanup_ip_spec s) = Inr (cleanup_ip_spec s)"
    by (rule cleanup_ip_twice)
  then show False using n by (simp add: cleanup_ip_raises)
qed

lemma get_best_ip_eq:
  "get_best_ip defs sock (Some last_ip) next_ip =
     (if CHR 0x00 \<in> set last_ip \<or> CHR 0x00 \<in> set next_ip then Inl ValueError
      else if keep_last defs (cleanup_ip_spec last_ip) (cleanup_ip_spec next_ip) then Inr last_ip
      else Inr next_ip)"
  by (simp add: get_best_ip_def cleanup_ip_raises keep_last_def)

lemma get_ip_info_eq:
  "get_ip_info defs sock ip_str =
     (if CHR 0x00 \<in> set ip_str then Inl ValueError
      else if parses_as_ip (cleanup_ip_spec ip_str)
           then Inr (Some (cleanup_ip_spec ip_str), is_public_ip defs (cleanup_ip_spec ip_str))
      else Inr (None, False))"
  using cleanup_ip_spec_no_nul[of ip_str]
  by (simp add: get_ip_info_def cleanup_ip_raises is_valid_ip_eq)

lemma get_ips_from_string_eq:
  "get_ips_from_string sock ip_str =
     (let ip_list = tokens ip_str in
      if ip_list = [] then Inr ([], 0)
      else if CHR 0x00 \<in> set (hd ip_list) then Inl ValueError
      else if \<not> parses_as_ip (hd ip_list) then Inr ([], 0)
      else if CHR 0x00 \<in> set (last ip_list) then Inl ValueError
      else if \<not> parses_as_ip (last ip_list) then Inr ([], 0)
      else Inr (ip_list, length ip_list))"
  by (simp add: get_ips_from_string_def collect_ips_tokens tokens_def is_valid_ip_eq Let_def)

subsection \<open>The examples of the spec\<close>

lemma cleanup_ip_spec_ipv4:
  "inet_pton4 (py_strip s) = Some b \<Longrightarrow> cleanup_ip_spec s = py_strip s"
  using inet_pton4_sound(3)[of "py_strip s" b] by (simp add: cleanup_ip_spec_def)

lemma cleanup_ip_spec_neither:
  "inet_pton4 (py_strip s) = None \<Longrightarrow> inet_pton6 (py_strip s) = None \<Longrightarrow>
   cleanup_ip_spec s = py_strip s"
  by (simp add: cleanup_ip_spec_def)

lemmas eval_pton6 = inet_pton6_def hex_digit_value_def inet_pton6_finish_def

lemma spec_203: "cleanup_ip_spec ''203.0.113.5'' = ''203.0.113.5''"
proof -
  have s: "py_strip ''203.0.113.5'' = ''203.0.113.5''" by (simp add: eval_strip)
  have "inet_pton4 ''203.0.113.5'' = Some [203, 0, 113, 5]" by (simp add: eval_pton4)
  then show ?thesis using cleanup_ip_spec_ipv4[of "''203.0.113.5''"] by (simp only: s)
qed

lemma spec_203_blanks: "cleanup_ip_spec '' 203.0.113.5 '' = ''203.0.113.5''"
proof -
  have s: "py_strip '' 203.0.113.5 '' = ''203.0.113.5''" by (simp add: eval_strip)
  have "inet_pton4 ''203.0.113.5'' = Some [203, 0, 113, 5]" by (simp add: eval_pton4)
  then show ?thesis using cleanup_ip_spec_ipv4[of "'' 203.0.113.5 ''"] by (simp only: s)
qed

lemma spec_10_1: "cleanup_ip_spec ''10.0.0.1'' = ''10.0.0.1''"
proof -
  have s: "py_strip ''10.0.0.1'' = ''10.0.0.1''" by (simp add: eval_strip)
  have "inet_pton4 ''10.0.0.1'' = Some [10, 0, 0, 1]" by (simp add: eval_pton4)
  then show ?thesis using cleanup_ip_spec_ipv4[of "''10.0.0.1''"] by (simp only: s)
qed

lemma spec_10_2: "cleanup_ip_spec ''10.0.0.2'' = ''10.0.0.2''"
proof -
  have s: "py_strip ''10.0.0.2'' = ''10.0.0.2''" by (simp add: eval_strip)
  have "inet_pton4 ''10.0.0.2'' = Some [10, 0, 0, 2]" by (simp add: eval_pton4)
  then show ?thesis using cleanup_ip_spec_ipv4[of "''10.0.0.2''"] by (simp only: s)
qed

lemma spec_127: "cleanup_ip_spec ''127.0.0.1'' = ''127.0.0.1''"
proof -
  have s: "py_strip ''127.0.0.1'' = ''127.0.0.1''" by (simp add: eval_strip)
  have "inet_pton4 ''127.0.0.1'' = Some [127, 0, 0, 1]" by (simp add: eval_pton4)
  then show ?thesis using cleanup_ip_spec_ipv4[of "''127.0.0.1''"] by (simp only: s)
qed

lemma spec_empty: "cleanup_ip_spec [] = []"
  by (simp add: cleanup_ip_spec_def eval_strip inet_pton4_def inet_pton6_def)

lemma spec_garbage: "cleanup_ip_spec ''garbage'' = ''garbage''"
  by (simp add: cleanup_ip_spec_def eval_strip eval_pton4 eval_pton6)

lemma parses_empty: "\<not> parses_as_ip []"
  by (simp add: parses_as_ip_def inet_pton4_def inet_pton6_def)

lemma parses_garbage: "\<not> parses_as_ip ''garbage''"
  by (simp add: parses_as_ip_def eval_pton4 eval_pton6)

lemma parses_not_an_ip: "\<not> parses_as_ip ''not-an-ip''"
  by (simp add: parses_as_ip_def eval_pton4 eval_pton6)

lemma parses_203: "parses_as_ip ''203.0.113.5''"
  by (simp add: parses_as_ip_def eval_pton4)

lemma parses_10_1: "parses_as_ip ''10.0.0.1''"
  by (simp add: parses_as_ip_def eval_pton4)

lemmas eval_tokens = tokens_def eval_strip py_lower_def py_lower_char_def

lemma tokens_rejected: "tokens ''not-an-ip, 10.0.0.1'' = [''not-an-ip'', ''10.0.0.1'']"
  by (simp add: eval_tokens)

lemma tokens_accepted: "tokens ''203.0.113.5, 10.0.0.1'' = [''203.0.113.5'', ''10.0.0.1'']"
  by (simp add: eval_tokens)

lemma tokens_null:
  "tokens (''203.0.113.5'' @ [CHR 0x00] @ '', 10.0.0.1'') = [''203.0.113.5'' @ [CHR 0x00], ''10.0.0.1'']"
  by (simp add: eval_tokens)

lemma tokens_only_null: "tokens [CHR 0x00] = [[CHR 0x00]]"
  by (simp add: eval_tokens)

subsection \<open>The null character\<close>

text \<open>
  C1. Every public function is claimed total on strings. On a string that holds the null
  character the functions that reach \<open>socket.inet_pton\<close> raise \<open>ValueError\<close>, which no
  handler of \<open>utils.py\<close> catches: here at the string made of that character alone.
  (The three prefix tests raise nothing; their results are plain booleans.)
\<close>

theorem null_character_raises:
  "cleanup_ip sock [CHR 0x00] = Inl ValueError \<and>
   is_valid_ipv4 sock [CHR 0x00] = Inl ValueError \<and>
   is_valid_ipv6 [CHR 0x00] = Inl ValueError \<and>
   is_valid_ip sock [CHR 0x00] = Inl ValueError \<and>
   get_ips_from_string sock [CHR 0x00] = Inl ValueError \<and>
   get_ip_info defs sock [CHR 0x00] = Inl ValueError \<and>
   get_best_ip defs sock (Some [CHR 0x00]) next_ip = Inl ValueError \<and>
   get_best_ip defs sock (Some last_ip) [CHR 0x00] = Inl ValueError"
  by (simp add: cleanup_ip_raises is_valid_ipv4_eq is_valid_ipv6_eq is_valid_ip_eq
      get_ips_from_string_eq tokens_only_null get_ip_info_eq get_best_ip_eq)

text \<open>
  C2. For a \<open>last_ip\<close> that is not \<open>None\<close>, \<open>get_best_ip\<close> keeps \<open>last_ip\<close> when its
  normalized form is public and that of \<open>next_ip\<close> is not, or when its normalized form is
  private and that of \<open>next_ip\<close> is loopback, and returns \<open>next_ip\<close> otherwise. The code
  does so whenever neither string holds the null character; with one it raises
  \<open>ValueError\<close>, as for a public \<open>last_ip\<close> and the text \<open>10.0.0.1\<close> followed by the
  null character.
\<close>

theorem get_best_ip_policy:
  "get_best_ip defs sock (Some last_ip) next_ip =
     (if CHR 0x00 \<in> set last_ip \<or> CHR 0x00 \<in> set next_ip then Inl ValueError
      else if keep_last defs (cleanup_ip_spec last_ip) (cleanup_ip_spec next_ip) then Inr last_ip
      else Inr next_ip) \<and>
   get_best_ip defs sock (Some ''203.0.113.5'') (''10.0.0.1'' @ [CHR 0x00]) = Inl ValueError"
  by (simp add: get_best_ip_eq)

text \<open>The three selector examples of the spec, under the sample configuration.\<close>

lemma get_best_ip_examples:
  "get_best_ip sample_defaults sock (Some ''203.0.113.5'') ''10.0.0.1'' = Inr ''203.0.113.5''"
  "get_best_ip sample_defaults sock (Some ''10.0.0.1'') ''127.0.0.1'' = Inr ''10.0.0.1''"
  "get_best_ip sample_defaults sock (Some ''10.0.0.1'') ''10.0.0.2'' = Inr ''10.0.0.2''"
  by (simp_all add: get_best_ip_eq keep_last_def spec_203 spec_10_1 spec_10_2 spec_127 eval_prefix)

text \<open>
  C4. \<open>cleanup_ip\<close> trims the string; it returns the canonical dotted-decimal form if
  the trimmed string parses as IPv4, else the canonical colon-hex form if it parses as
  IPv6, without its first seven characters when they are \<open>::ffff:\<close>, else the trimmed
  string. The code does so for every string without the null character and maps
  \<open>::ffff:192.168.1.1\<close> to \<open>192.168.1.1\<close>; with the null character it raises
  \<open>ValueError\<close> where the claim has the trimmed string returned.
\<close>

theorem cleanup_ip_behaviour:
  "cleanup_ip sock s =
     (if CHR 0x00 \<in> set s then Inl ValueError else Inr (cleanup_ip_spec s)) \<and>
   cleanup_ip sock (''garbage'' @ [CHR 0x00]) = Inl ValueError \<and>
   cleanup_ip sock ''::ffff:192.168.1.1'' = Inr ''192.168.1.1''"
proof -
  have "cleanup_ip sock (''garbage'' @ [CHR 0x00]) = Inl ValueError"
    by (simp add: cleanup_ip_raises)
  then show ?thesis
    using cleanup_ip_raises [of sock s] cleanup_ip_mapped_text [of sock] by simp
qed

text \<open>
  C6. \<open>get_ips_from_string\<close> splits on commas, strips and lower-cases each field and
  drops the empty ones; it returns the list and its length if the list is not empty and
  its first and last elements are valid, and the empty list and 0 otherwise. The code
  does so as long as the elements it validates hold no null character, and on the two
  examples of the spec; on a first element with the null character it raises
  \<open>ValueError\<close> where the claim has the chain rejected.
\<close>

theorem get_ips_from_string_behaviour:
  "get_ips_from_string sock ip_str =
     (let ip_list = tokens ip_str in
      if ip_list = [] then Inr ([], 0)
      else if CHR 0x00 \<in> set (hd ip_list) then Inl ValueError
      else if \<not> parses_as_ip (hd ip_list) then Inr ([], 0)
      else if CHR 0x00 \<in> set (last ip_list) then Inl ValueError
      else if \<not> parses_as_ip (last ip_list) then Inr ([], 0)
      else Inr (ip_list, length ip_list)) \<and>
   get_ips_from_string sock (''203.0.113.5'' @ [CHR 0x00] @ '', 10.0.0.1'') = Inl ValueError \<and>
   get_ips_from_string sock ''not-an-ip, 10.0.0.1'' = Inr ([], 0) \<and>
   get_ips_from_string sock ''203.0.113.5, 10.0.0.1'' = Inr ([''203.0.113.5'', ''10.0.0.1''], 2)"
proof -
  have "get_ips_from_string sock (''203.0.113.5'' @ [CHR 0x00] @ '', 10.0.0.1'') = Inl ValueError"
    by (simp only: get_ips_from_string_eq tokens_null Let_def) simp
  moreover have "get_ips_from_string sock ''not-an-ip, 10.0.0.1'' = Inr ([], 0)"
    by (simp only: get_ips_from_string_eq tokens_rejected Let_def) (simp add: parses_not_an_ip)
  moreover have "get_ips_from_string sock ''203.0.113.5, 10.0.0.1'' =
      Inr ([''203.0.113.5'', ''10.0.0.1''], 2)"
    by (simp only: get_ips_from_string_eq tokens_accepted Let_def)
      (simp add: parses_203 parses_10_1)
  ultimately show ?thesis using get_ips_from_string_eq [of sock ip_str] by simp
qed

text \<open>
  C8. \<open>get_ip_info\<close> returns the normalized string and whether it is public when the
  normalized string is valid, and \<open>(None, False)\<close> otherwise, as on the empty string and
  on \<open>garbage\<close>. The code does so for every string without the null character; with one
  it raises \<open>ValueError\<close> where the claim has \<open>(None, False)\<close> returned.
\<close>

theorem get_ip_info_behaviour:
  "get_ip_info defs sock ip_str =
     (if CHR 0x00 \<in> set ip_str then Inl ValueError
      else if parses_as_ip (cleanup_ip_spec ip_str)
           then Inr (Some (cleanup_ip_spec ip_str), is_public_ip defs (cleanup_ip_spec ip_str))
      else Inr (None, False)) \<and>
   get_ip_info defs sock (''garbage'' @ [CHR 0x00]) = Inl ValueError \<and>
   get_ip_info defs sock [] = Inr (None, False) \<and>
   get_ip_info defs sock ''garbage'' = Inr (None, False)"
proof -
  have "get_ip_info defs sock (''garbage'' @ [CHR 0x00]) = Inl ValueError"
    by (simp add: get_ip_info_eq)
  moreover have "get_ip_info defs sock [] = Inr (None, False)"
    by (simp add: get_ip_info_eq spec_empty parses_empty)
  moreover have "get_ip_info defs sock ''garbage'' = Inr (None, False)"
    by (simp add: get_ip_info_eq spec_garbage parses_garbage)
  ultimately show ?thesis using get_ip_info_eq [of defs sock ip_str] by simp
qed

text \<open>
  C10. \<open>get_best_ip\<close> returns one of its two arguments as passed in, not its normalized
  form: a kept \<open>last_ip\<close> comes back with its blanks. The only other outcome is the
  \<open>ValueError\<close> of a candidate with the null character, where the claim has one of the
  arguments returned.
\<close>

theorem get_best_ip_returns_argument:
  "get_best_ip defs sock last_ip_opt next_ip \<in>
     {Inl ValueError, Inr next_ip} \<union> (case last_ip_opt of None \<Rightarrow> {} | Some last_ip \<Rightarrow> {Inr last_ip}) \<and>
   get_best_ip sample_defaults sock (Some '' 203.0.113.5 '') ''10.0.0.1'' = Inr '' 203.0.113.5 '' \<and>
   cleanup_ip sock '' 203.0.113.5 '' = Inr ''203.0.113.5'' \<and>
   get_best_ip defs sock (Some ''10.0.0.1'') [CHR 0x00] = Inl ValueError"
proof -
  have "get_best_ip defs sock last_ip_opt next_ip \<in>
     {Inl ValueError, Inr next_ip} \<union> (case last_ip_opt of None \<Rightarrow> {} | Some last_ip \<Rightarrow> {Inr last_ip})"
  proof (cases last_ip_opt)
    case None
    then show ?thesis by (simp add: get_best_ip_def)
  next
    case (Some last_ip)
    then show ?thesis by (simp add: get_best_ip_eq)
  qed
  moreover have "get_best_ip sample_defaults sock (Some '' 203.0.113.5 '') ''10.0.0.1'' =
      Inr '' 203.0.113.5 ''"
    by (simp add: get_best_ip_eq keep_last_def spec_203_blanks spec_10_1 eval_prefix)
  moreover have "cleanup_ip sock '' 203.0.113.5 '' = Inr ''203.0.113.5''"
    by (simp add: cleanup_ip_raises spec_203_blanks)
  moreover have "get_best_ip defs sock (Some ''10.0.0.1'') [CHR 0x00] = Inl ValueError"
    by (simp add: get_best_ip_eq)
  ultimately show ?thesis by blast
qed

end
